theory Spec2Isabelle
  imports Main "HOL-Library.Word" "HOL-Library.Multiset"
begin

section \<open>Errors\<close>

text \<open>
  Every failure of \<^verbatim>\<open>data.cc\<close> is a \<^verbatim>\<open>CHECK\<close> or a \<^verbatim>\<open>LOG(FATAL)\<close>. The
  constructors follow the error classes of the specification; the string is the text the
  source streams into the failing check. \<open>OutOfBounds\<close> stands for an access outside a
  vector or an array (\<^verbatim>\<open>std::vector::at\<close> throwing, or undefined behaviour of
  \<^verbatim>\<open>operator[]\<close>, \<^verbatim>\<open>back()\<close> and \<^verbatim>\<open>memcpy\<close>).
\<close>

datatype error =
    FormatError string
  | ConfigurationError string
  | ConsistencyError string
  | CheckFailed string
  | OutOfBounds

section \<open>MetaInfo\<close>

text \<open>
  \<^verbatim>\<open>bst_float\<close> is a 32-bit IEEE float. The code of this file only copies, stores and
  serialises floats, so a float is modelled by its 32 bits (and a \<^verbatim>\<open>double\<close> by its 64
  bits). The three counters are \<^verbatim>\<open>uint64_t\<close>, \<^verbatim>\<open>group_ptr_\<close> is a vector of 32-bit
  unsigned integers. The fields keep the names of the source without the trailing
  underscore.
\<close>

type_synonym bst_float = "32 word"
type_synonym byte = "8 word"

record MetaInfo =
  num_row :: "64 word"
  num_col :: "64 word"
  num_nonzero :: "64 word"
  labels :: "bst_float list"
  group_ptr :: "32 word list"
  weights :: "bst_float list"
  base_margin :: "bst_float list"

definition Clear :: "MetaInfo \<Rightarrow> MetaInfo" where
  "Clear info = info\<lparr>num_row := 0, num_col := 0, num_nonzero := 0, labels := [],
     group_ptr := [], weights := [], base_margin := []\<rparr>"

subsection \<open>SetInfo\<close>

text \<open>
  \<^verbatim>\<open>SetInfo(key, dptr, dtype, num)\<close> receives an untyped pointer, a type tag and a
  count. The model receives the \<open>num\<close> elements the pointer refers to, tagged with their
  type: the four constructors are the four cases of \<^verbatim>\<open>DISPATCH_CONST_PTR\<close>.
\<close>

datatype buffer =
    Float32 "bst_float list"
  | Double "64 word list"
  | UInt32 "32 word list"
  | UInt64 "64 word list"

text \<open>
  \<^verbatim>\<open>std::copy\<close> converts each element to the element type of the destination. The
  conversions between floating point numbers and integers are parameters of the model;
  conversions between unsigned integers truncate (\<open>ucast\<close>).
\<close>

record casts =
  f32_of_f64 :: "64 word \<Rightarrow> bst_float"
  f32_of_u32 :: "32 word \<Rightarrow> bst_float"
  f32_of_u64 :: "64 word \<Rightarrow> bst_float"
  u32_of_f32 :: "bst_float \<Rightarrow> 32 word"
  u32_of_f64 :: "64 word \<Rightarrow> 32 word"

fun buffer_num :: "buffer \<Rightarrow> nat" where
  "buffer_num (Float32 xs) = length xs"
| "buffer_num (Double xs) = length xs"
| "buffer_num (UInt32 xs) = length xs"
| "buffer_num (UInt64 xs) = length xs"

fun as_float :: "casts \<Rightarrow> buffer \<Rightarrow> bst_float list" where
  "as_float cv (Float32 xs) = xs"
| "as_float cv (Double xs) = map (f32_of_f64 cv) xs"
| "as_float cv (UInt32 xs) = map (f32_of_u32 cv) xs"
| "as_float cv (UInt64 xs) = map (f32_of_u64 cv) xs"

fun as_unsigned :: "casts \<Rightarrow> buffer \<Rightarrow> 32 word list" where
  "as_unsigned cv (Float32 xs) = map (u32_of_f32 cv) xs"
| "as_unsigned cv (Double xs) = map (u32_of_f64 cv) xs"
| "as_unsigned cv (UInt32 xs) = xs"
| "as_unsigned cv (UInt64 xs) = map ucast xs"

text \<open>\<^verbatim>\<open>v.resize(n)\<close>: keeps the first \<open>n\<close> elements, pads with value-initialised ones.\<close>

definition resize :: "'a \<Rightarrow> nat \<Rightarrow> 'a list \<Rightarrow> 'a list" where
  "resize d n xs = take n xs @ replicate (n - length xs) d"

text \<open>\<^verbatim>\<open>std::copy(src, src + num, dst.begin() + pos)\<close> into a vector that is long enough.\<close>

definition copy_to :: "'a list \<Rightarrow> nat \<Rightarrow> 'a list \<Rightarrow> 'a list" where
  "copy_to src pos dst = take pos dst @ src @ drop (pos + length src) dst"

text \<open>
  The loop \<^verbatim>\<open>for (i = 1; i < group_ptr_.size(); ++i) group_ptr_[i] = group_ptr_[i - 1] + group_ptr_[i]\<close>,
  in 32-bit unsigned arithmetic.
\<close>

function accumulate_groups :: "nat \<Rightarrow> 32 word list \<Rightarrow> 32 word list" where
  "accumulate_groups i gp =
     (if i < length gp then accumulate_groups (i + 1) (gp[i := gp ! (i - 1) + gp ! i]) else gp)"
  by pat_completeness auto
termination
  by (relation "measure (\<lambda>(i, gp). length gp - i)") auto

declare accumulate_groups.simps [simp del]

definition SetInfo :: "casts \<Rightarrow> string \<Rightarrow> buffer \<Rightarrow> MetaInfo \<Rightarrow> error + MetaInfo" where
  "SetInfo cv key buf info =
     (let num = buffer_num buf in
      if key = ''label'' then
        Inr (info\<lparr>labels := copy_to (as_float cv buf) 0 (resize 0 num (labels info))\<rparr>)
      else if key = ''weight'' then
        Inr (info\<lparr>weights := copy_to (as_float cv buf) 0 (resize 0 num (weights info))\<rparr>)
      else if key = ''base_margin'' then
        Inr (info\<lparr>base_margin := copy_to (as_float cv buf) 0 (resize 0 num (base_margin info))\<rparr>)
      else if key = ''group'' then
        (let gp1 = resize 0 (num + 1) (group_ptr info);
             gp2 = copy_to (as_unsigned cv buf) 1 gp1;
             gp3 = gp2[0 := 0]
         in Inr (info\<lparr>group_ptr := accumulate_groups 1 gp3\<rparr>))
      else Inl (ConfigurationError (''Unknown metainfo: '' @ key)))"

text \<open>
  What the loop computes from the array \<open>0, s1, ..., sn\<close>: the running sums of the sizes,
  starting with 0, in the 32-bit unsigned arithmetic of \<^verbatim>\<open>group_ptr_\<close>.
\<close>

fun boundaries :: "32 word \<Rightarrow> 32 word list \<Rightarrow> 32 word list" where
  "boundaries acc [] = [acc]"
| "boundaries acc (x # xs) = acc # boundaries (acc + x) xs"

text \<open>
  The prefix-sum boundary array of the specification, over the natural numbers: for the
  sizes \<open>s1, ..., sn\<close> it is \<open>0, s1, s1 + s2, ..., s1 + ... + sn\<close>.
\<close>

fun running_sums :: "nat \<Rightarrow> nat list \<Rightarrow> nat list" where
  "running_sums acc [] = [acc]"
| "running_sums acc (x # xs) = acc # running_sums (acc + x) xs"

definition prefix_sum_boundaries :: "nat list \<Rightarrow> nat list" where
  "prefix_sum_boundaries sizes = running_sums 0 sizes"

text \<open>
  A choice of the conversions between floating point numbers and integers, for the
  examples; the examples use buffers of unsigned integers, which are not converted
  through them.
\<close>

definition plain_casts :: casts where
  "plain_casts = \<lparr>f32_of_f64 = ucast, f32_of_u32 = id, f32_of_u64 = ucast,
     u32_of_f32 = id, u32_of_f64 = ucast\<rparr>"

subsection \<open>Printing numbers\<close>

text \<open>The decimal text \<^verbatim>\<open>operator<<\<close> produces for an unsigned and for a signed integer.\<close>

definition digit :: "nat \<Rightarrow> char" where
  "digit d = ''0123456789'' ! d"

function show_nat :: "nat \<Rightarrow> string" where
  "show_nat n = (if n < 10 then [digit n] else show_nat (n div 10) @ [digit (n mod 10)])"
  by pat_completeness auto
termination
  by (relation "measure (\<lambda>n. n)") auto

declare show_nat.simps [simp del]

definition show_int :: "int \<Rightarrow> string" where
  "show_int i = (if i < 0 then CHR ''-'' # show_nat (nat (- i)) else show_nat (nat i))"

subsection \<open>Binary streams\<close>

text \<open>
  \<^verbatim>\<open>dmlc::Stream\<close> is an external collaborator. It is modelled as a sequence of bytes
  held in memory: \<^verbatim>\<open>Write\<close> appends to the output, \<^verbatim>\<open>Read(ptr, size)\<close> copies the next
  \<open>min size remaining\<close> bytes over the beginning of the destination and returns how
  many it copied. Integers are stored as the host stores them, little endian.
\<close>

fun le_bytes :: "nat \<Rightarrow> nat \<Rightarrow> byte list" where
  "le_bytes 0 v = []"
| "le_bytes (Suc n) v = of_nat (v mod 256) # le_bytes n (v div 256)"

fun le_value :: "byte list \<Rightarrow> nat" where
  "le_value [] = 0"
| "le_value (b # bs) = unat b + 256 * le_value bs"

definition write_u32 :: "32 word \<Rightarrow> byte list" where
  "write_u32 w = le_bytes 4 (unat w)"

definition write_u64 :: "64 word \<Rightarrow> byte list" where
  "write_u64 w = le_bytes 8 (unat w)"

text \<open>
  \<open>read_bytes n old fi\<close>: \<open>old\<close> is the content of the \<open>n\<close> destination bytes before
  the call. The result is whether all \<open>n\<close> bytes were read, the destination bytes after
  the call, and the rest of the stream.
\<close>

definition read_bytes :: "nat \<Rightarrow> byte list \<Rightarrow> byte list \<Rightarrow> bool \<times> byte list \<times> byte list" where
  "read_bytes n old fi =
     (let got = take n fi in (length got = n, got @ drop (length got) old, drop n fi))"

definition read_u32 :: "32 word \<Rightarrow> byte list \<Rightarrow> bool \<times> 32 word \<times> byte list" where
  "read_u32 old fi =
     (case read_bytes 4 (write_u32 old) fi of (ok, bs, fi') \<Rightarrow> (ok, of_nat (le_value bs), fi'))"

definition read_u64 :: "64 word \<Rightarrow> byte list \<Rightarrow> bool \<times> 64 word \<times> byte list" where
  "read_u64 old fi =
     (case read_bytes 8 (write_u64 old) fi of (ok, bs, fi') \<Rightarrow> (ok, of_nat (le_value bs), fi'))"

text \<open>
  Vectors of 32-bit elements (\<^verbatim>\<open>bst_float\<close> and \<^verbatim>\<open>unsigned\<close>), as the stream's
  serializer handles them: a 64-bit element count, then the elements. Reading resizes
  the vector to the stored count first and then reads \<^verbatim>\<open>sizeof(T) * size\<close> bytes (a
  \<^verbatim>\<open>size_t\<close> product) into it. Memory is unbounded in the model: \<^verbatim>\<open>resize\<close> never
  fails.
\<close>

fun decode_vector32 :: "byte list \<Rightarrow> 32 word list" where
  "decode_vector32 (a # b # c # d # rest) = of_nat (le_value [a, b, c, d]) # decode_vector32 rest"
| "decode_vector32 _ = []"

definition write_vector32 :: "32 word list \<Rightarrow> byte list" where
  "write_vector32 xs = write_u64 (of_nat (length xs)) @ concat (map write_u32 xs)"

definition read_vector32 :: "32 word list \<Rightarrow> byte list \<Rightarrow> bool \<times> 32 word list \<times> byte list" where
  "read_vector32 old fi =
     (case read_u64 0 fi of (ok, sz, fi1) \<Rightarrow>
        if \<not> ok then (False, old, fi1)
        else
          let v1 = resize 0 (unat sz) old in
          if sz \<noteq> 0 then
            (case read_bytes ((4 * unat sz) mod 2 ^ 64) (concat (map write_u32 v1)) fi1 of
               (ok2, bs, fi2) \<Rightarrow> (ok2, decode_vector32 bs, fi2))
          else (True, v1, fi1))"

subsection \<open>The version tag\<close>

text \<open>
  Modelled from the spec: \<^verbatim>\<open>Version::Save\<close>, \<^verbatim>\<open>Version::Load\<close> and
  \<^verbatim>\<open>Version::String\<close> (\<^verbatim>\<open>common/version.h\<close>, not among the sources). The
  specification calls what is written first the version tag and says that it stores a
  major version; \<^verbatim>\<open>LoadBinary\<close> takes the major version as the first component of a
  triple. The model writes the triple (major, minor, patch) as three 32-bit signed
  integers; reading it fails with a format error on a short stream. \<^verbatim>\<open>Version::Self()\<close>
  is the parameter \<open>self\<close> of the functions that use it.
\<close>

type_synonym version = "32 word \<times> 32 word \<times> 32 word"

definition Version_Save :: "version \<Rightarrow> byte list \<Rightarrow> byte list" where
  "Version_Save self fo =
     (case self of (major, minor, patch) \<Rightarrow>
        fo @ write_u32 major @ write_u32 minor @ write_u32 patch)"

definition Version_Load :: "byte list \<Rightarrow> error + version \<times> byte list" where
  "Version_Load fi =
     (case read_u32 0 fi of (ok1, major, fi1) \<Rightarrow>
        if \<not> ok1 then Inl (FormatError ''Incorrect version format found in binary file.'')
        else case read_u32 0 fi1 of (ok2, minor, fi2) \<Rightarrow>
          if \<not> ok2 then Inl (FormatError ''Incorrect version format found in binary file.'')
          else case read_u32 0 fi2 of (ok3, patch, fi3) \<Rightarrow>
            if \<not> ok3 then Inl (FormatError ''Incorrect version format found in binary file.'')
            else Inr ((major, minor, patch), fi3))"

definition Version_String :: "version \<Rightarrow> string" where
  "Version_String v =
     (case v of (major, minor, patch) \<Rightarrow>
        show_int (sint major) @ ''.'' @ show_int (sint minor) @ ''.'' @ show_int (sint patch))"

subsection \<open>SaveBinary and LoadBinary\<close>

text \<open>\<open>fo\<close> is what the stream holds before the call, the result what it holds after.\<close>

definition SaveBinary :: "version \<Rightarrow> MetaInfo \<Rightarrow> byte list \<Rightarrow> byte list" where
  "SaveBinary self info fo =
     Version_Save self fo
       @ write_u64 (num_row info)
       @ write_u64 (num_col info)
       @ write_u64 (num_nonzero info)
       @ write_vector32 (labels info)
       @ write_vector32 (group_ptr info)
       @ write_vector32 (weights info)
       @ write_vector32 (base_margin info)"

text \<open>
  \<^verbatim>\<open>LoadBinary\<close> reads into the fields of the instance it is called on. A failing
  \<^verbatim>\<open>CHECK\<close> leaves through an exception, so the result of a failure is the error
  together with the instance as it is at that point.
\<close>

definition invalid_format :: error where
  "invalid_format = FormatError ''MetaInfo: invalid format''"

text \<open>
  \<open>CHECK_read r store k\<close> is one line \<^verbatim>\<open>CHECK(fi->Read(&field)) << "MetaInfo: invalid format"\<close>:
  \<open>r\<close> is the outcome of the read, \<open>store\<close> puts what was read into the field, and \<open>k\<close>
  is the rest of the function, run when the check passes.
\<close>

definition CHECK_read ::
  "bool \<times> 'a \<times> byte list \<Rightarrow> ('a \<Rightarrow> MetaInfo) \<Rightarrow>
   (MetaInfo \<Rightarrow> byte list \<Rightarrow> error \<times> MetaInfo + MetaInfo \<times> byte list) \<Rightarrow>
   error \<times> MetaInfo + MetaInfo \<times> byte list" where
  "CHECK_read r store k =
     (case r of (ok, v, fi') \<Rightarrow> if \<not> ok then Inl (invalid_format, store v) else k (store v) fi')"

definition LoadBinary ::
  "version \<Rightarrow> byte list \<Rightarrow> MetaInfo \<Rightarrow> error \<times> MetaInfo + MetaInfo \<times> byte list" where
  "LoadBinary self fi info =
     (case Version_Load fi of
        Inl e \<Rightarrow> Inl (e, info)
      | Inr (version, fi0) \<Rightarrow>
          if fst version \<noteq> 1 then
            Inl (FormatError (''Binary DMatrix generated by XGBoost: '' @ Version_String version
                   @ '' is no longer supported. ''
                   @ ''Please process and save your data in current version: ''
                   @ Version_String self @ '' again.''), info)
          else
            CHECK_read (read_u64 (num_row info) fi0) (\<lambda>v. info\<lparr>num_row := v\<rparr>) (\<lambda>info fi.
            CHECK_read (read_u64 (num_col info) fi) (\<lambda>v. info\<lparr>num_col := v\<rparr>) (\<lambda>info fi.
            CHECK_read (read_u64 (num_nonzero info) fi) (\<lambda>v. info\<lparr>num_nonzero := v\<rparr>) (\<lambda>info fi.
            CHECK_read (read_vector32 (labels info) fi) (\<lambda>v. info\<lparr>labels := v\<rparr>) (\<lambda>info fi.
            CHECK_read (read_vector32 (group_ptr info) fi) (\<lambda>v. info\<lparr>group_ptr := v\<rparr>) (\<lambda>info fi.
            CHECK_read (read_vector32 (weights info) fi) (\<lambda>v. info\<lparr>weights := v\<rparr>) (\<lambda>info fi.
            CHECK_read (read_vector32 (base_margin info) fi) (\<lambda>v. info\<lparr>base_margin := v\<rparr>) (\<lambda>info fi.
            Inr (info, fi)))))))))"

section \<open>DMatrix::Create\<close>

text \<open>
  The collective-communication library is an external collaborator. What the code asks
  of it is modelled by \<open>env\<close>: whether the job is distributed and the rank of the worker
  that runs \<^verbatim>\<open>Create\<close>. The world size is the number of workers, and \<open>sources\<close> holds the
  \<^verbatim>\<open>MetaInfo\<close> of the data source of every worker, by rank, so that the sum all workers
  receive from \<^verbatim>\<open>Allreduce<Sum>\<close> can be computed: the element-wise sum, in 64-bit unsigned
  arithmetic, of the buffers the workers contribute.
\<close>

record env =
  DMLC_ENABLE_STD_THREAD :: bool
  is_distributed :: bool
  rank :: nat

text \<open>The buffer of worker \<open>r\<close>: \<^verbatim>\<open>std::vector<uint64_t> ncols(world_size, 0); ncols[rank] = num_col_\<close>.\<close>

definition worker_ncols :: "nat \<Rightarrow> nat \<Rightarrow> MetaInfo \<Rightarrow> 64 word list" where
  "worker_ncols world_size r info = (replicate world_size 0)[r := num_col info]"

definition Allreduce_Sum :: "64 word list list \<Rightarrow> nat \<Rightarrow> 64 word list" where
  "Allreduce_Sum bufs n = map (\<lambda>i. sum_list (map (\<lambda>b. b ! i) bufs)) [0..<n]"

text \<open>
  \<^verbatim>\<open>std::max_element\<close> on a non-empty range, as the index of the element it points to: the
  first of the largest elements. It is called as \<open>max_element xs 0 1\<close>.
\<close>

function max_element :: "64 word list \<Rightarrow> nat \<Rightarrow> nat \<Rightarrow> nat" where
  "max_element xs largest first =
     (if first < length xs
      then max_element xs (if xs ! largest < xs ! first then first else largest) (first + 1)
      else largest)"
  by pat_completeness auto
termination
  by (relation "measure (\<lambda>(xs, largest, first). length xs - first)") auto

declare max_element.simps [simp del]

definition mismatch_message :: "nat \<Rightarrow> nat \<Rightarrow> 64 word \<Rightarrow> 64 word \<Rightarrow> string" where
  "mismatch_message i max_ind v max_cols =
     ''DMatrix at rank: '' @ show_nat i @ '' worker ''
       @ ''has different number of columns than rank: '' @ show_nat max_ind @ '' worker. ''
       @ ''('' @ show_nat (unat v) @ '' vs. '' @ show_nat (unat max_cols) @ '')''"

text \<open>
  The validation loop over all ranks, from rank \<open>i\<close> on: \<open>None\<close> when every check passes,
  the error of the first failing \<^verbatim>\<open>CHECK\<close> otherwise.
\<close>

function validate_ncols :: "64 word list \<Rightarrow> 64 word \<Rightarrow> nat \<Rightarrow> nat \<Rightarrow> error option" where
  "validate_ncols ncols max_cols max_ind i =
     (if i < length ncols then
        (let v = ncols ! i in
         if v = 0 \<or> v = max_cols then validate_ncols ncols max_cols max_ind (i + 1)
         else Some (ConsistencyError (mismatch_message i max_ind v max_cols)))
      else None)"
  by pat_completeness auto
termination
  by (relation "measure (\<lambda>(ncols, max_cols, max_ind, i). length ncols - i)") auto

declare validate_ncols.simps [simp del]

text \<open>
  The matrix \<^verbatim>\<open>Create\<close> returns is represented by the \<^verbatim>\<open>MetaInfo\<close> of the source it is
  built from (and the cache prefix of the external-memory variant).
\<close>

datatype DMatrix = SimpleDMatrix MetaInfo | SparsePageDMatrix MetaInfo string

definition Create :: "env \<Rightarrow> MetaInfo list \<Rightarrow> string \<Rightarrow> error + DMatrix" where
  "Create e sources cache_prefix =
     (let info = sources ! rank e in
      if length cache_prefix = 0 then
        if is_distributed e then
          (let world_size = length sources;
               ncols = Allreduce_Sum
                 (map (\<lambda>r. worker_ncols world_size r (sources ! r)) [0..<world_size]) world_size;
               max_ind = max_element ncols 0 1;
               max_cols = ncols ! max_ind;
               info' = (if num_col info = 0 \<and> num_row info = 0
                        then info\<lparr>num_col := max_cols\<rparr> else info)
           in case validate_ncols ncols max_cols max_ind 0 of
                Some err \<Rightarrow> Inl err
              | None \<Rightarrow> Inr (SimpleDMatrix info'))
        else Inr (SimpleDMatrix info)
      else if DMLC_ENABLE_STD_THREAD e then Inr (SparsePageDMatrix info cache_prefix)
      else Inl (ConfigurationError ''External memory is not enabled in mingw''))"

section \<open>SparsePage\<close>

text \<open>
  Sizes, positions and offsets are \<^verbatim>\<open>size_t\<close> values. They are modelled as natural
  numbers, and every \<^verbatim>\<open>size_t\<close> addition and subtraction of the source is written with
  its wrap-around at \<open>size_range = 2 ^ 64\<close>.
\<close>

definition size_range :: nat where
  "size_range = 2 ^ 64"

definition u64 :: "nat \<Rightarrow> nat" where
  "u64 n = n mod size_range"

definition sub64 :: "nat \<Rightarrow> nat \<Rightarrow> nat" where
  "sub64 a b = (a + size_range - b mod size_range) mod size_range"

record Entry =
  index :: "32 word"
  fvalue :: bst_float

definition Entry_init :: Entry where
  "Entry_init = \<lparr>index = 0, fvalue = 0\<rparr>"

record SparsePage =
  offset :: "nat list"
  data :: "Entry list"
  base_rowid :: nat

text \<open>
  Modelled from the spec: the constructor, \<^verbatim>\<open>Size()\<close> and \<^verbatim>\<open>operator[]\<close> of
  \<^verbatim>\<open>SparsePage\<close> are declared in \<^verbatim>\<open>xgboost/data.h\<close>, which is not among the sources. By
  the specification a page starts empty with \<open>offset = [0]\<close>, \<open>offset\<close> has one element
  more than the page has rows, and row \<open>i\<close> is the part of \<open>data\<close> from \<open>offset[i]\<close> up to
  \<open>offset[i+1]\<close>. Reading a row outside \<open>data\<close> is an out-of-bounds access.
\<close>

definition SparsePage_init :: SparsePage where
  "SparsePage_init = \<lparr>offset = [0], data = [], base_rowid = 0\<rparr>"

definition Size :: "SparsePage \<Rightarrow> nat" where
  "Size page = length (offset page) - 1"

definition Inst :: "SparsePage \<Rightarrow> nat \<Rightarrow> error + Entry list" where
  "Inst page i =
     (if i + 1 < length (offset page) \<and> offset page ! i \<le> offset page ! (i + 1)
         \<and> offset page ! (i + 1) \<le> length (data page)
      then Inr (take (offset page ! (i + 1) - offset page ! i) (drop (offset page ! i) (data page)))
      else Inl OutOfBounds)"

text \<open>
  \<^verbatim>\<open>memcpy(dst + dpos, src + spos, sizeof(T) * n)\<close> on the elements of two vectors;
  \<open>None\<close> when it would read or write outside of them.
\<close>

definition memcpy :: "'a list \<Rightarrow> nat \<Rightarrow> 'a list \<Rightarrow> nat \<Rightarrow> nat \<Rightarrow> 'a list option" where
  "memcpy dst dpos src spos n =
     (if dpos + n \<le> length dst \<and> spos + n \<le> length src
      then Some (take dpos dst @ take n (drop spos src) @ drop (dpos + n) dst)
      else None)"

text \<open>A \<^verbatim>\<open>for\<close> loop over a range, whose body may fail: the first failure ends the loop.\<close>

primrec for_each :: "('a \<Rightarrow> 's \<Rightarrow> error + 's) \<Rightarrow> 'a list \<Rightarrow> 's \<Rightarrow> error + 's" where
  "for_each body [] s = Inr s"
| "for_each body (x # xs) s = (case body x s of Inl e \<Rightarrow> Inl e | Inr s' \<Rightarrow> for_each body xs s')"

subsection \<open>Push of a page\<close>

text \<open>One iteration of \<^verbatim>\<open>offset_vec[i + begin] = top + batch_offset_vec[i + 1]\<close>.\<close>

definition Push_offset :: "nat \<Rightarrow> nat \<Rightarrow> nat list \<Rightarrow> nat \<Rightarrow> nat list \<Rightarrow> error + nat list" where
  "Push_offset begin top' batch_offset_vec i offset_vec =
     (if i + 1 < length batch_offset_vec \<and> i + begin < length offset_vec
      then Inr (offset_vec[i + begin := u64 (top' + batch_offset_vec ! (i + 1))])
      else Inl OutOfBounds)"

definition Push :: "SparsePage \<Rightarrow> SparsePage \<Rightarrow> error + SparsePage" where
  "Push self batch =
     (if offset self = [] then Inl OutOfBounds
      else
        let top' = last (offset self);
            data_vec = resize Entry_init (u64 (top' + length (data batch))) (data self)
        in case memcpy data_vec top' (data batch) 0 (length (data batch)) of
             None \<Rightarrow> Inl OutOfBounds
           | Some data_vec' \<Rightarrow>
               let begin = length (offset self);
                   offset_vec = resize 0 (u64 (begin + Size batch)) (offset self)
               in case for_each (Push_offset begin top' (offset batch)) [0..<Size batch] offset_vec of
                    Inl e \<Rightarrow> Inl e
                  | Inr offset_vec' \<Rightarrow> Inr (self\<lparr>offset := offset_vec', data := data_vec'\<rparr>))"

subsection \<open>Push of a row block\<close>

text \<open>
  \<^verbatim>\<open>dmlc::RowBlock<uint32_t>\<close>, with the fields \<^verbatim>\<open>Push\<close> reads: the number of rows, the
  array of \<open>size + 1\<close> row offsets, the array of column indices and the array of values,
  which may be a null pointer (\<open>None\<close>).
\<close>

record RowBlock =
  block_size :: nat
  block_offset :: "nat list"
  block_index :: "32 word list option"
  block_value :: "bst_float list option"

text \<open>The bits of the float \<^verbatim>\<open>1.0f\<close>.\<close>

definition float_one :: bst_float where
  "float_one = 0x3F800000"

definition Push_block_offset :: "nat list \<Rightarrow> nat \<Rightarrow> nat list \<Rightarrow> error + nat list" where
  "Push_block_offset batch_offset i offset_vec =
     (if offset_vec = [] \<or> \<not> i + 1 < length batch_offset then Inl OutOfBounds
      else Inr (offset_vec @
        [sub64 (u64 (last offset_vec + batch_offset ! (i + 1))) (batch_offset ! i)]))"

definition Push_block_entry ::
  "32 word list \<Rightarrow> bst_float list option \<Rightarrow> nat \<Rightarrow> Entry list \<Rightarrow> error + Entry list" where
  "Push_block_entry batch_index batch_value i data_vec =
     (if \<not> i < length batch_index then Inl OutOfBounds
      else case batch_value of
        None \<Rightarrow> Inr (data_vec @ [\<lparr>index = batch_index ! i, fvalue = float_one\<rparr>])
      | Some vs \<Rightarrow>
          if \<not> i < length vs then Inl OutOfBounds
          else Inr (data_vec @ [\<lparr>index = batch_index ! i, fvalue = vs ! i\<rparr>]))"

definition Push_block :: "SparsePage \<Rightarrow> RowBlock \<Rightarrow> error + SparsePage" where
  "Push_block self batch =
     (if \<not> block_size batch < length (block_offset batch) then Inl OutOfBounds
      else case block_index batch of
        None \<Rightarrow> Inl (CheckFailed ''batch.index != nullptr'')
      | Some batch_index \<Rightarrow>
          (case for_each (Push_block_offset (block_offset batch)) [0..<block_size batch]
                  (offset self) of
             Inl e \<Rightarrow> Inl e
           | Inr offset_vec \<Rightarrow>
               (case for_each (Push_block_entry batch_index (block_value batch))
                       [block_offset batch ! 0..<block_offset batch ! block_size batch]
                       (data self) of
                  Inl e \<Rightarrow> Inl e
                | Inr data_vec \<Rightarrow>
                    if offset_vec \<noteq> [] \<and> last offset_vec = length data_vec
                    then Inr (self\<lparr>offset := offset_vec, data := data_vec\<rparr>)
                    else Inl (CheckFailed ''offset_vec.back() == data.Size()''))))"

subsection \<open>PushCSC\<close>

text \<open>
  One iteration of the loop over the columns. The state is the new \<open>data\<close> and \<open>offset\<close>
  vectors, \<open>beg\<close> and \<open>ptr\<close>. In \<open>PushCSC\<close> the source tests \<^verbatim>\<open>!self_data.empty()\<close> and
  checks the sizes in that branch; the model tests \<open>self_data = []\<close> first, which is the
  \<^verbatim>\<open>else\<close> branch of the source.
\<close>

definition PushCSC_column ::
  "Entry list \<Rightarrow> nat list \<Rightarrow> Entry list \<Rightarrow> nat list \<Rightarrow> nat \<Rightarrow>
   Entry list \<times> nat list \<times> nat \<times> nat \<Rightarrow> error + Entry list \<times> nat list \<times> nat \<times> nat" where
  "PushCSC_column self_data self_offset other_data other_offset i st =
     (case st of (data_new, offset_new, beg, ptr) \<Rightarrow>
        if \<not> i + 1 < length self_offset then Inl OutOfBounds
        else
          let self_beg = self_offset ! i;
              self_length = sub64 (self_offset ! (i + 1)) self_beg
          in if \<not> beg \<le> length data_new then Inl (CheckFailed ''beg <= data.size()'')
             else case memcpy data_new beg self_data self_beg self_length of
               None \<Rightarrow> Inl OutOfBounds
             | Some data1 \<Rightarrow>
                 let beg1 = u64 (beg + self_length) in
                 if \<not> i + 1 < length other_offset then Inl OutOfBounds
                 else
                   let other_beg = other_offset ! i;
                       other_length = sub64 (other_offset ! (i + 1)) other_beg
                   in if \<not> beg1 \<le> length data1 then Inl (CheckFailed ''beg <= data.size()'')
                      else case memcpy data1 beg1 other_data other_beg other_length of
                        None \<Rightarrow> Inl OutOfBounds
                      | Some data2 \<Rightarrow>
                          let beg2 = u64 (beg1 + other_length) in
                          if \<not> ptr < length offset_new
                          then Inl (CheckFailed ''ptr < offset.size()'')
                          else Inr (data2, offset_new[ptr := beg2], beg2, ptr + 1))"

definition PushCSC :: "SparsePage \<Rightarrow> SparsePage \<Rightarrow> error + SparsePage" where
  "PushCSC self batch =
     (let self_data = data self; self_offset = offset self;
          other_data = data batch; other_offset = offset batch
      in if other_data = [] then Inr self
         else if self_data = [] then Inr (self\<lparr>data := other_data, offset := other_offset\<rparr>)
         else if length self_offset \<noteq> length other_offset then
           Inl (ConsistencyError (''self_data.size(): '' @ show_nat (length self_data) @ '', ''
                  @ ''other_data.size(): '' @ show_nat (length other_data)))
         else if other_offset = [] then Inl OutOfBounds
         else
           let offset_new = (replicate (length other_offset) 0)[0 := 0];
               data_new = replicate (u64 (length self_data + length other_data)) Entry_init;
               n_features = length other_offset - 1
           in case for_each (PushCSC_column self_data self_offset other_data other_offset)
                     [0..<n_features] (data_new, offset_new, 0, 1) of
                Inl e \<Rightarrow> Inl e
              | Inr (data', offset', beg, ptr) \<Rightarrow> Inr (self\<lparr>data := data', offset := offset'\<rparr>))"

subsection \<open>ParallelGroupBuilder\<close>

text \<open>
  Modelled from the spec: \<^verbatim>\<open>common::ParallelGroupBuilder\<close> (\<^verbatim>\<open>common/group_data.h\<close>, not
  among the sources), after section 4.3 of the specification. \<open>InitBudget\<close> allocates a
  zeroed counter for every pair of a thread and a group; \<open>AddBudget\<close> increments the
  counter of its thread for its group; \<open>InitStorage\<close> gives every group a segment whose
  size is the sum of its counts over all threads, the segments in the order of the
  groups, and inside the segment of a group every thread a contiguous range of the size of
  its count, the ranges in the order of the threads; it turns the counter of a thread
  for a group into the cursor of this range and allocates the output to the exact
  combined size; \<open>Push\<close> writes the value at the cursor of its thread for its group and
  advances the cursor. A group or a thread outside the allocated counters, and a cursor
  outside the output, is an out-of-bounds access.
\<close>

record ParallelGroupBuilder =
  num_groups :: nat
  rptr :: "nat list"
  group_data :: "Entry list"
  thread_rptr :: "nat list list"

definition InitBudget :: "nat \<Rightarrow> nat \<Rightarrow> ParallelGroupBuilder \<Rightarrow> ParallelGroupBuilder" where
  "InitBudget nkeys nthread b =
     b\<lparr>num_groups := nkeys, thread_rptr := replicate nthread (replicate nkeys 0)\<rparr>"

definition AddBudget :: "nat \<Rightarrow> nat \<Rightarrow> ParallelGroupBuilder \<Rightarrow> error + ParallelGroupBuilder" where
  "AddBudget key threadid b =
     (if threadid < length (thread_rptr b) \<and> key < length (thread_rptr b ! threadid)
      then Inr (b\<lparr>thread_rptr := (thread_rptr b)
             [threadid := (thread_rptr b ! threadid)[key := thread_rptr b ! threadid ! key + 1]]\<rparr>)
      else Inl OutOfBounds)"

definition InitStorage :: "ParallelGroupBuilder \<Rightarrow> ParallelGroupBuilder" where
  "InitStorage b =
     (let counts = thread_rptr b;
          nthread = length counts;
          group_size = (\<lambda>g. sum_list (map (\<lambda>t. counts ! t ! g) [0..<nthread]));
          group_start = (\<lambda>g. sum_list (map group_size [0..<g]))
      in b\<lparr>rptr := map group_start [0..<num_groups b + 1],
            group_data := replicate (group_start (num_groups b)) Entry_init,
            thread_rptr := map (\<lambda>t. map (\<lambda>g. group_start g
                 + sum_list (map (\<lambda>t'. counts ! t' ! g) [0..<t])) [0..<num_groups b])
               [0..<nthread]\<rparr>)"

definition Push_group ::
  "nat \<Rightarrow> Entry \<Rightarrow> nat \<Rightarrow> ParallelGroupBuilder \<Rightarrow> error + ParallelGroupBuilder" where
  "Push_group key v threadid b =
     (if threadid < length (thread_rptr b) \<and> key < length (thread_rptr b ! threadid)
         \<and> thread_rptr b ! threadid ! key < length (group_data b)
      then
        let rp = thread_rptr b ! threadid ! key
        in Inr (b\<lparr>group_data := (group_data b)[rp := v],
                  thread_rptr := (thread_rptr b)
                    [threadid := (thread_rptr b ! threadid)[key := rp + 1]]\<rparr>)
      else Inl OutOfBounds)"

subsection \<open>GetTranspose\<close>

text \<open>
  The two parallel loops run under \<^verbatim>\<open>schedule(static)\<close>. \<open>omp\<close> holds what the model takes
  from the OpenMP runtime: the number of threads and, for each iteration \<open>i\<close> of such a
  loop, the thread that runs it. A thread touches only its own counters and cursors, so
  the iterations are run one after the other, in the order of the rows.
\<close>

record omp =
  omp_get_max_threads :: nat
  omp_get_thread_num :: "nat \<Rightarrow> nat"

definition for_each_entry ::
  "SparsePage \<Rightarrow> (nat \<Rightarrow> Entry \<Rightarrow> 's \<Rightarrow> error + 's) \<Rightarrow> nat \<Rightarrow> 's \<Rightarrow> error + 's" where
  "for_each_entry page body i s =
     (case Inst page i of Inl e \<Rightarrow> Inl e | Inr inst \<Rightarrow> for_each (body i) inst s)"

definition GetTranspose :: "omp \<Rightarrow> SparsePage \<Rightarrow> int \<Rightarrow> error + SparsePage" where
  "GetTranspose rt page num_columns =
     (let builder = \<lparr>num_groups = 0, rptr = offset SparsePage_init,
                      group_data = data SparsePage_init, thread_rptr = []\<rparr>;
          nthread = omp_get_max_threads rt;
          builder1 = InitBudget (nat (num_columns mod int size_range)) nthread builder;
          batch_size = Size page
      in case for_each (for_each_entry page
                 (\<lambda>i entry. AddBudget (unat (index entry)) (omp_get_thread_num rt i)))
               [0..<batch_size] builder1 of
           Inl e \<Rightarrow> Inl e
         | Inr builder2 \<Rightarrow>
             (case for_each (for_each_entry page
                     (\<lambda>i entry. Push_group (unat (index entry))
                        \<lparr>index = of_nat (u64 (base_rowid page + i)), fvalue = fvalue entry\<rparr>
                        (omp_get_thread_num rt i)))
                   [0..<batch_size] (InitStorage builder2) of
                Inl e \<Rightarrow> Inl e
              | Inr builder3 \<Rightarrow>
                  Inr (SparsePage_init\<lparr>offset := rptr builder3, data := group_data builder3\<rparr>)))"

subsection \<open>The page invariant and the entries of a page\<close>

definition page_inv :: "SparsePage \<Rightarrow> bool" where
  "page_inv page \<longleftrightarrow>
     offset page \<noteq> [] \<and> offset page ! 0 = 0 \<and> sorted (offset page)
       \<and> last (offset page) = length (data page)"

text \<open>
  The (row, column, value) triples of a page, as a multiset; the row is the position of
  the row in the whole matrix, \<open>base_rowid + i\<close>.
\<close>

definition row_triples :: "SparsePage \<Rightarrow> nat \<Rightarrow> (nat \<times> nat \<times> bst_float) multiset" where
  "row_triples page i =
     (case Inst page i of
        Inl e \<Rightarrow> {#}
      | Inr inst \<Rightarrow> mset (map (\<lambda>entry. (base_rowid page + i, unat (index entry), fvalue entry)) inst))"

definition triples :: "SparsePage \<Rightarrow> (nat \<times> nat \<times> bst_float) multiset" where
  "triples page = sum_list (map (row_triples page) [0..<Size page])"

text \<open>
  For the statements about \<open>PushCSC\<close>: column \<open>i\<close> of a page given by its offset and data
  arrays, the columns of two pages merged up to column \<open>k\<close>, and the page \<open>PushCSC\<close>
  builds from two pages with the same number of columns.
\<close>

definition column :: "nat list \<Rightarrow> 'a list \<Rightarrow> nat \<Rightarrow> 'a list" where
  "column off xs i = take (off ! (i + 1) - off ! i) (drop (off ! i) xs)"

definition merged_columns ::
  "nat list \<Rightarrow> 'a list \<Rightarrow> nat list \<Rightarrow> 'a list \<Rightarrow> nat \<Rightarrow> 'a list" where
  "merged_columns so sd oo od k = concat (map (\<lambda>i. column so sd i @ column oo od i) [0..<k])"

definition PushCSC_result :: "SparsePage \<Rightarrow> SparsePage \<Rightarrow> SparsePage" where
  "PushCSC_result S Q =
     S\<lparr>data := merged_columns (offset S) (data S) (offset Q) (data Q) (Size Q),
       offset := map (\<lambda>i. offset S ! i + offset Q ! i) [0..<length (offset Q)]\<rparr>"

text \<open>
  A well-formed row block: \<open>size + 1\<close> nondecreasing row offsets, an index array that
  covers them, and a value array that covers them or is absent.
\<close>

definition block_wf :: "RowBlock \<Rightarrow> bool" where
  "block_wf b \<longleftrightarrow>
     length (block_offset b) = block_size b + 1 \<and> sorted (block_offset b)
       \<and> (case block_index b of None \<Rightarrow> False | Some ix \<Rightarrow> last (block_offset b) \<le> length ix)
       \<and> (case block_value b of None \<Rightarrow> True | Some vs \<Rightarrow> last (block_offset b) \<le> length vs)"

text \<open>The page \<open>Push\<close> builds from a page and a well-formed row block.\<close>

definition Push_block_result :: "SparsePage \<Rightarrow> RowBlock \<Rightarrow> SparsePage" where
  "Push_block_result P b =
     P\<lparr>offset := offset P @ map (\<lambda>i. length (data P)
          + (block_offset b ! (i + 1) - block_offset b ! 0)) [0..<block_size b],
       data := data P @ map (\<lambda>i. \<lparr>index = the (block_index b) ! i,
          fvalue = (case block_value b of None \<Rightarrow> float_one | Some vs \<Rightarrow> vs ! i)\<rparr>)
          [block_offset b ! 0..<block_offset b ! block_size b]\<rparr>"

section \<open>Vocabulary of the proofs about GetTranspose\<close>

text \<open>
  The entries of a page in storage order, each with the row it lies in, and the sequence of
  \<^verbatim>\<open>(column, thread, entry)\<close> pushes the two loops of \<open>GetTranspose\<close> perform on it: the
  entry of row \<open>i\<close> with column index \<open>c\<close> is pushed to group \<open>c\<close> by the thread that runs row
  \<open>i\<close>, as an entry whose index is the row id \<^verbatim>\<open>base_rowid + i\<close> cast to \<^verbatim>\<open>bst_uint\<close>.
\<close>

definition entries_of :: "SparsePage \<Rightarrow> (nat \<times> Entry) list" where
  "entries_of P = concat (map (\<lambda>i. map (Pair i) (column (offset P) (data P) i)) [0..<Size P])"

definition pushes :: "omp \<Rightarrow> SparsePage \<Rightarrow> (nat \<times> nat \<times> Entry) list" where
  "pushes rt P = map (\<lambda>x. (unat (index (snd x)), omp_get_thread_num rt (fst x),
       \<lparr>index = of_nat (u64 (base_rowid P + fst x)), fvalue = fvalue (snd x)\<rparr>)) (entries_of P)"

text \<open>
  The precondition of \<open>GetTranspose\<close>: the page satisfies the page invariant,
  \<^verbatim>\<open>num_columns\<close> is not negative and fits \<^verbatim>\<open>size_t\<close>, every thread number is below
  \<^verbatim>\<open>omp_get_max_threads()\<close>, and every column index of the page is below \<^verbatim>\<open>num_columns\<close>
  (the builder does not check the group of a push).
\<close>

definition transposable :: "omp \<Rightarrow> SparsePage \<Rightarrow> int \<Rightarrow> bool" where
  "transposable rt P num_columns \<longleftrightarrow>
     page_inv P \<and> 0 \<le> num_columns \<and> num_columns < int size_range
       \<and> (\<forall>i<Size P. omp_get_thread_num rt i < omp_get_max_threads rt)
       \<and> (\<forall>i<Size P. \<forall>e\<in>set (column (offset P) (data P) i). int (unat (index e)) < num_columns)"

text \<open>
  A transposed triple: row and column exchanged, the value kept.
\<close>

definition swap_triple :: "nat \<times> nat \<times> 'v \<Rightarrow> nat \<times> nat \<times> 'v" where
  "swap_triple x = (fst (snd x), fst x, snd (snd x))"

text \<open>
  The layout the builder computes from a sequence of pushes \<open>ps\<close> with \<open>T\<close> threads:
  \<open>counters T K c\<close> is the table of per-thread, per-group numbers \<open>c t g\<close>;
  \<open>cnt ps t g\<close> is the number of pushes of thread \<open>t\<close> to group \<open>g\<close> and \<open>vals ps t g\<close> their
  values in order; \<open>tsum ps t g\<close> is the number of pushes to group \<open>g\<close> by the threads below
  \<open>t\<close>; \<open>gstart ps T g\<close> is the start of group \<open>g\<close> and \<open>tstart ps T t g\<close> the start of the
  region of thread \<open>t\<close> inside it. \<open>in_range ps dn T p g t\<close> says that position \<open>p\<close> lies in the
  part of that region that is still to be written once the pushes \<open>dn\<close> are done.
\<close>

definition counters :: "nat \<Rightarrow> nat \<Rightarrow> (nat \<Rightarrow> nat \<Rightarrow> nat) \<Rightarrow> nat list list" where
  "counters T K c = map (\<lambda>t. map (\<lambda>g. c t g) [0..<K]) [0..<T]"

definition cnt :: "(nat \<times> nat \<times> 'v) list \<Rightarrow> nat \<Rightarrow> nat \<Rightarrow> nat" where
  "cnt ps t g = length (filter (\<lambda>x. fst x = g \<and> fst (snd x) = t) ps)"

definition vals :: "(nat \<times> nat \<times> 'v) list \<Rightarrow> nat \<Rightarrow> nat \<Rightarrow> 'v list" where
  "vals ps t g = map (\<lambda>x. snd (snd x)) (filter (\<lambda>x. fst x = g \<and> fst (snd x) = t) ps)"

definition tsum :: "(nat \<times> nat \<times> 'v) list \<Rightarrow> nat \<Rightarrow> nat \<Rightarrow> nat" where
  "tsum ps t g = sum_list (map (\<lambda>t'. cnt ps t' g) [0..<t])"

definition gstart :: "(nat \<times> nat \<times> 'v) list \<Rightarrow> nat \<Rightarrow> nat \<Rightarrow> nat" where
  "gstart ps T g = sum_list (map (tsum ps T) [0..<g])"

definition tstart :: "(nat \<times> nat \<times> 'v) list \<Rightarrow> nat \<Rightarrow> nat \<Rightarrow> nat \<Rightarrow> nat" where
  "tstart ps T t g = gstart ps T g + tsum ps t g"

definition in_range ::
  "(nat \<times> nat \<times> 'v) list \<Rightarrow> (nat \<times> nat \<times> 'v) list \<Rightarrow> nat \<Rightarrow> nat \<Rightarrow> nat \<Rightarrow> nat \<Rightarrow> bool" where
  "in_range ps dn T p g t \<longleftrightarrow>
     t < T \<and> (\<exists>j. cnt dn t g \<le> j \<and> j < cnt ps t g \<and> p = tstart ps T t g + j)"


section \<open>Vocabulary of the proofs about SaveBinary and LoadBinary\<close>

text \<open>A default-constructed \<^verbatim>\<open>MetaInfo\<close>.\<close>

definition MetaInfo_init :: MetaInfo where
  "MetaInfo_init = \<lparr>num_row = 0, num_col = 0, num_nonzero = 0, labels = [], group_ptr = [],
     weights = [], base_margin = []\<rparr>"

text \<open>
  The byte size of each of the four vectors is a \<^verbatim>\<open>size_t\<close>, as it is for every vector
  held in memory.
\<close>

definition vectors_fit :: "MetaInfo \<Rightarrow> bool" where
  "vectors_fit info \<longleftrightarrow>
     4 * length (labels info) < 2 ^ 64 \<and> 4 * length (group_ptr info) < 2 ^ 64 \<and>
     4 * length (weights info) < 2 ^ 64 \<and> 4 * length (base_margin info) < 2 ^ 64"

text \<open>
  A reader has the truncation property when a successful read of \<open>k\<close> bytes succeeds with
  the same value on every truncation of the stream that keeps these \<open>k\<close> bytes, and is
  short on every truncation that does not. A loading function has it when it fails with
  a format error on every truncation of a stream that cuts into what it consumed.
\<close>

definition reader_trunc :: "(byte list \<Rightarrow> bool \<times> 'a \<times> byte list) \<Rightarrow> bool" where
  "reader_trunc r \<longleftrightarrow>
     (\<forall>fi v fi'. r fi = (True, v, fi') \<longrightarrow>
        (\<exists>k. length fi = k + length fi' \<and>
           (\<forall>n. (k \<le> n \<longrightarrow> r (take n fi) = (True, v, take (n - k) fi')) \<and>
                (n < k \<longrightarrow> \<not> fst (r (take n fi))))))"




section \<open>Properties of SetInfo\<close>

lemma group_buffer_layout:
  "(copy_to xs 1 (resize 0 (length xs + 1) old))[0 := (0::32 word)] = 0 # xs"
  by (cases old) (simp_all add: copy_to_def resize_def)

lemma accumulate_groups_append:
  "pre \<noteq> [] \<Longrightarrow> accumulate_groups (length pre) (pre @ rest) = butlast pre @ boundaries (last pre) rest"
proof (induction rest arbitrary: pre)
  case Nil
  then show ?case by (subst accumulate_groups.simps) simp
next
  case (Cons x r)
  have upd: "(pre @ x # r)[length pre := (pre @ x # r) ! (length pre - 1) + (pre @ x # r) ! length pre]
      = (pre @ [last pre + x]) @ r"
    using Cons.prems by (simp add: nth_append last_conv_nth)
  have "accumulate_groups (length pre) (pre @ x # r)
      = accumulate_groups (length (pre @ [last pre + x])) ((pre @ [last pre + x]) @ r)"
    using upd by (subst accumulate_groups.simps) simp
  also have "\<dots> = butlast (pre @ [last pre + x]) @ boundaries (last (pre @ [last pre + x])) r"
    by (rule Cons.IH) simp
  also have "\<dots> = butlast pre @ boundaries (last pre) (x # r)"
    using Cons.prems by simp
  finally show ?case .
qed

lemma boundaries_sums:
  "boundaries acc xs = map (\<lambda>i. acc + sum_list (take i xs)) [0..<Suc (length xs)]"
proof (induction xs arbitrary: acc)
  case Nil
  then show ?case by simp
next
  case (Cons x xs)
  have "map (\<lambda>i. acc + sum_list (take i (x # xs))) [0..<Suc (length (x # xs))]
      = acc # map (\<lambda>i. acc + sum_list (take (Suc i) (x # xs))) [0..<Suc (length xs)]"
    by (subst upt_rec) (simp add: map_Suc_upt [symmetric] del: upt_Suc)
  then show ?case using Cons.IH [of "acc + x"] by (simp add: add.assoc del: upt_Suc)
qed

lemma buffer_num_as_unsigned: "buffer_num b = length (as_unsigned cv b)"
  by (cases b) simp_all

lemma group_buffer_layout_Suc:
  "(copy_to xs (Suc 0) (resize 0 (Suc (length xs)) old))[0 := (0::32 word)] = 0 # xs"
  using group_buffer_layout [of xs old] by simp

lemma accumulate_groups_from_zero: "accumulate_groups (Suc 0) (0 # xs) = boundaries 0 xs"
  using accumulate_groups_append [of "[0]" xs] by simp

lemma SetInfo_group_run:
  "SetInfo cv ''group'' b info = Inr (info\<lparr>group_ptr := boundaries 0 (as_unsigned cv b)\<rparr>)"
  by (simp add: SetInfo_def Let_def buffer_num_as_unsigned [of b cv] group_buffer_layout_Suc
      accumulate_groups_from_zero)

lemma boundaries_running_sums:
  assumes "list_all2 (\<lambda>w n. w = (of_nat n :: 32 word)) ws ns"
  shows "boundaries (of_nat a) ws = map of_nat (running_sums a ns)"
  using assms
proof (induction ws ns arbitrary: a rule: list_all2_induct)
  case Nil
  then show ?case by simp
next
  case (Cons w ws n ns)
  have "boundaries (of_nat a + w) ws = map of_nat (running_sums (a + n) ns)"
    using Cons.IH [of "a + n"] Cons.hyps(1) by simp
  then show ?case by simp
qed

lemma boundaries_prefix_sums:
  assumes "list_all2 (\<lambda>w n. w = (of_nat n :: 32 word)) ws ns"
  shows "boundaries 0 ws = map of_nat (prefix_sum_boundaries ns)"
  using boundaries_running_sums [OF assms, of 0] by (simp add: prefix_sum_boundaries_def)

lemma running_sums_nth:
  "i \<le> length xs \<Longrightarrow> running_sums acc xs ! i = acc + sum_list (take i xs)"
proof (induction xs arbitrary: acc i)
  case Nil
  then show ?case by simp
next
  case (Cons x xs)
  then show ?case by (cases i) simp_all
qed

lemma length_running_sums: "length (running_sums acc xs) = length xs + 1"
  by (induction xs arbitrary: acc) simp_all

lemma running_sums_bound:
  "y \<in> set (running_sums acc xs) \<Longrightarrow> y \<le> acc + sum_list xs"
proof (induction xs arbitrary: acc)
  case Nil
  then show ?case by simp
next
  case (Cons x xs)
  then show ?case by fastforce
qed

lemma unat_of_nat_32: "n < 2 ^ 32 \<Longrightarrow> unat (of_nat n :: 32 word) = n"
  by (simp add: unat_of_nat)

lemma prefix_sums_exact:
  assumes "sum_list sizes < 2 ^ 32"
  shows "map unat (map of_nat (prefix_sum_boundaries sizes) :: 32 word list)
     = prefix_sum_boundaries sizes"
proof -
  have "unat (of_nat y :: 32 word) = y" if "y \<in> set (prefix_sum_boundaries sizes)" for y
  proof -
    have "y \<le> sum_list sizes"
      using running_sums_bound [of y 0 sizes] that by (simp add: prefix_sum_boundaries_def)
    then have "y < 2 ^ 32" using assms by simp
    then show ?thesis by (rule unat_of_nat_32)
  qed
  then show ?thesis by (simp add: map_idI)
qed

lemma SetInfo_group_UInt32:
  "SetInfo cv ''group'' (UInt32 xs) info =
     Inr (info\<lparr>group_ptr := map of_nat (prefix_sum_boundaries (map unat xs))\<rparr>)"
proof -
  have "list_all2 (\<lambda>w n. w = (of_nat n :: 32 word)) xs (map unat xs)"
    by (simp add: list_all2_map2 list_all2_same)
  from boundaries_prefix_sums [OF this] show ?thesis by (simp add: SetInfo_group_run)
qed

lemma SetInfo_group_UInt64:
  "SetInfo cv ''group'' (UInt64 ys) info =
     Inr (info\<lparr>group_ptr := map of_nat (prefix_sum_boundaries (map unat ys))\<rparr>)"
proof -
  have "(ucast y :: 32 word) = of_nat (unat y)" for y :: "64 word"
    by transfer simp
  then have "list_all2 (\<lambda>w n. w = (of_nat n :: 32 word)) (map ucast ys) (map unat ys)"
    by (simp add: list_all2_map1 list_all2_map2 list_all2_same)
  from boundaries_prefix_sums [OF this] show ?thesis by (simp add: SetInfo_group_run)
qed

lemma SetInfo_group_Float32:
  "SetInfo cv ''group'' (Float32 fs) info =
     Inr (info\<lparr>group_ptr :=
       map of_nat (prefix_sum_boundaries (map (\<lambda>x. unat (u32_of_f32 cv x)) fs))\<rparr>)"
proof -
  have "list_all2 (\<lambda>w n. w = (of_nat n :: 32 word)) (map (u32_of_f32 cv) fs)
      (map (\<lambda>x. unat (u32_of_f32 cv x)) fs)"
    by (simp add: list_all2_map1 list_all2_map2 list_all2_same)
  from boundaries_prefix_sums [OF this] show ?thesis by (simp add: SetInfo_group_run)
qed

lemma SetInfo_group_Double:
  "SetInfo cv ''group'' (Double ds) info =
     Inr (info\<lparr>group_ptr :=
       map of_nat (prefix_sum_boundaries (map (\<lambda>x. unat (u32_of_f64 cv x)) ds))\<rparr>)"
proof -
  have "list_all2 (\<lambda>w n. w = (of_nat n :: 32 word)) (map (u32_of_f64 cv) ds)
      (map (\<lambda>x. unat (u32_of_f64 cv x)) ds)"
    by (simp add: list_all2_map1 list_all2_map2 list_all2_same)
  from boundaries_prefix_sums [OF this] show ?thesis by (simp add: SetInfo_group_run)
qed

lemma prefix_sum_boundaries_shape:
  "length (prefix_sum_boundaries sizes) = length sizes + 1"
  "prefix_sum_boundaries sizes ! 0 = 0"
  "i \<le> length sizes \<Longrightarrow> prefix_sum_boundaries sizes ! i = sum_list (take i sizes)"
  using running_sums_nth [of 0 sizes 0] running_sums_nth [of i sizes 0]
  by (simp_all add: prefix_sum_boundaries_def length_running_sums)

text \<open>
  Claim C9, as amended. For every buffer of \<open>count\<close> group sizes, \<^verbatim>\<open>SetInfo("group", ...)\<close>
  succeeds and sets \<^verbatim>\<open>group_ptr_\<close> to the prefix-sum boundary array of the sizes, each
  boundary stored in the 32-bit unsigned element type of \<^verbatim>\<open>group_ptr_\<close>, that is reduced
  modulo \<open>2^32\<close>; the sizes of a floating-point buffer are first converted to 32-bit
  unsigned integers. The boundary array has \<open>count + 1\<close> elements and a leading 0, and its
  element \<open>i\<close> is the sum of the first \<open>i\<close> sizes. When the sizes total less than \<open>2^32\<close>, what
  \<^verbatim>\<open>group_ptr_\<close> holds is exactly the prefix-sum boundary array. For the sizes 3, 5, 2 it is
  0, 3, 8, 10.
\<close>

theorem SetInfo_group:
  "SetInfo cv ''group'' (UInt32 xs) info =
     Inr (info\<lparr>group_ptr := map of_nat (prefix_sum_boundaries (map unat xs))\<rparr>)
   \<and> SetInfo cv ''group'' (UInt64 ys) info =
     Inr (info\<lparr>group_ptr := map of_nat (prefix_sum_boundaries (map unat ys))\<rparr>)
   \<and> SetInfo cv ''group'' (Float32 fs) info =
     Inr (info\<lparr>group_ptr :=
       map of_nat (prefix_sum_boundaries (map (\<lambda>x. unat (u32_of_f32 cv x)) fs))\<rparr>)
   \<and> SetInfo cv ''group'' (Double ds) info =
     Inr (info\<lparr>group_ptr :=
       map of_nat (prefix_sum_boundaries (map (\<lambda>x. unat (u32_of_f64 cv x)) ds))\<rparr>)
   \<and> (sum_list sizes < 2 ^ 32 \<longrightarrow>
        map unat (map of_nat (prefix_sum_boundaries sizes) :: 32 word list)
          = prefix_sum_boundaries sizes)
   \<and> length (prefix_sum_boundaries sizes) = length sizes + 1
   \<and> prefix_sum_boundaries sizes ! 0 = 0
   \<and> (\<forall>i\<le>length sizes. prefix_sum_boundaries sizes ! i = sum_list (take i sizes))
   \<and> SetInfo cv ''group'' (UInt32 [3, 5, 2]) info = Inr (info\<lparr>group_ptr := [0, 3, 8, 10]\<rparr>)"
proof -
  have ex: "SetInfo cv ''group'' (UInt32 [3, 5, 2]) info = Inr (info\<lparr>group_ptr := [0, 3, 8, 10]\<rparr>)"
    by (simp add: SetInfo_group_run)
  show ?thesis
    using SetInfo_group_UInt32 SetInfo_group_UInt64 SetInfo_group_Float32 SetInfo_group_Double
      prefix_sums_exact prefix_sum_boundaries_shape ex
    by blast
qed

theorem SetInfo_group_witness:
  "sum_list [3, 5, 2 :: nat] < 2 ^ 32
   \<and> SetInfo plain_casts ''group'' (UInt64 [3, 5, 2]) MetaInfo_init =
        Inr (MetaInfo_init\<lparr>group_ptr := [0, 3, 8, 10]\<rparr>)
   \<and> map unat ([0, 3, 8, 10] :: 32 word list) = prefix_sum_boundaries [3, 5, 2]
   \<and> prefix_sum_boundaries [3, 5, 2] = [0, 3, 8, 10]
   \<and> (2::nat) \<le> length [3, 5, 2 :: nat]
   \<and> prefix_sum_boundaries [3, 5, 2] ! 2 = sum_list (take 2 [3, 5, 2])"
proof -
  have p: "prefix_sum_boundaries [3, 5, 2] = [0, 3, 8, 10]"
    by (simp add: prefix_sum_boundaries_def)
  note inst = SetInfo_group [of plain_casts "[]" MetaInfo_init "[3, 5, 2]" "[]" "[]" "[3, 5, 2]"]
  have a: "SetInfo plain_casts ''group'' (UInt64 [3, 5, 2]) MetaInfo_init =
        Inr (MetaInfo_init\<lparr>group_ptr := [0, 3, 8, 10]\<rparr>)"
    using inst [THEN conjunct2, THEN conjunct1] by (simp add: p)
  have b: "map unat ([0, 3, 8, 10] :: 32 word list) = prefix_sum_boundaries [3, 5, 2]"
    using inst [THEN conjunct2, THEN conjunct2, THEN conjunct2, THEN conjunct2, THEN conjunct1]
    by (simp add: p)
  have c: "prefix_sum_boundaries [3, 5, 2] ! 2 = sum_list (take 2 [3, 5, 2])"
    using inst [THEN conjunct2, THEN conjunct2, THEN conjunct2, THEN conjunct2, THEN conjunct2,
      THEN conjunct2, THEN conjunct2, THEN conjunct1]
    by simp
  show ?thesis using a b c p by simp
qed

text \<open>
  Claim C9 as stated does not hold for every buffer: for the sizes 4294967295 and 2 the
  prefix-sum boundary array is 0, 4294967295, 4294967297, and \<^verbatim>\<open>group_ptr_\<close> becomes
  0, 4294967295, 1.
\<close>

theorem SetInfo_group_overflow_counterexample:
  "SetInfo plain_casts ''group'' (UInt32 [4294967295, 2]) MetaInfo_init =
     Inr (MetaInfo_init\<lparr>group_ptr := [0, 4294967295, 1]\<rparr>)
   \<and> prefix_sum_boundaries [4294967295, 2] = [0, 4294967295, 4294967297]
   \<and> map unat ([0, 4294967295, 1] :: 32 word list) \<noteq> prefix_sum_boundaries [4294967295, 2]"
  by (simp add: SetInfo_group_run prefix_sum_boundaries_def)

section \<open>Properties of SaveBinary and LoadBinary\<close>

lemma length_resize [simp]: "length (resize d n xs) = n"
  by (simp add: resize_def)

lemma length_le_bytes [simp]: "length (le_bytes n v) = n"
  by (induction n arbitrary: v) simp_all

lemma le_value_le_bytes: "v < 256 ^ n \<Longrightarrow> le_value (le_bytes n v) = v"
proof (induction n arbitrary: v)
  case 0
  then show ?case by simp
next
  case (Suc n)
  have "v div 256 < 256 ^ n" using Suc.prems by (simp add: less_mult_imp_div_less mult.commute)
  then have "le_value (le_bytes n (v div 256)) = v div 256" by (rule Suc.IH)
  moreover have "unat (of_nat (v mod 256) :: byte) = v mod 256"
    by (simp add: unat_of_nat)
  ultimately show ?case by simp
qed

lemma read_bytes_exact:
  "length bs = n \<Longrightarrow> length old = n \<Longrightarrow> read_bytes n old (bs @ rest) = (True, bs, rest)"
  by (simp add: read_bytes_def)

lemma read_u64_write_u64: "read_u64 old (write_u64 w @ rest) = (True, w, rest)"
proof -
  have "unat w < 256 ^ 8" using unsigned_less [of w] by simp
  then have "le_value (le_bytes 8 (unat w)) = unat w" by (rule le_value_le_bytes)
  then show ?thesis by (simp add: read_u64_def write_u64_def read_bytes_exact)
qed

lemma read_u32_write_u32: "read_u32 old (write_u32 w @ rest) = (True, w, rest)"
proof -
  have "unat w < 256 ^ 4" using unsigned_less [of w] by simp
  then have "le_value (le_bytes 4 (unat w)) = unat w" by (rule le_value_le_bytes)
  then show ?thesis by (simp add: read_u32_def write_u32_def read_bytes_exact)
qed

lemma write_u32_cons: "\<exists>a b c d. write_u32 w = [a, b, c, d] \<and> of_nat (le_value [a, b, c, d]) = w"
proof -
  have "unat w < 256 ^ 4" using unsigned_less [of w] by simp
  then have v: "le_value (le_bytes 4 (unat w)) = unat w" by (rule le_value_le_bytes)
  have "length (write_u32 w) = 4" by (simp add: write_u32_def)
  then obtain a b c d where abcd: "write_u32 w = [a, b, c, d]"
    by (auto simp: length_Suc_conv eval_nat_numeral)
  have "of_nat (le_value (write_u32 w)) = (of_nat (unat w) :: 32 word)"
    using v by (simp only: write_u32_def)
  moreover have "(of_nat (unat w) :: 32 word) = w" by simp
  ultimately have "of_nat (le_value [a, b, c, d]) = w"
    by (simp only: abcd)
  with abcd show ?thesis by blast
qed

lemma decode_vector32_encode: "decode_vector32 (concat (map write_u32 xs)) = xs"
proof (induction xs)
  case Nil
  then show ?case by simp
next
  case (Cons w xs)
  obtain a b c d where "write_u32 w = [a, b, c, d]" "of_nat (le_value [a, b, c, d]) = w"
    using write_u32_cons by blast
  then show ?case using Cons.IH by simp
qed

lemma length_encode32: "length (concat (map write_u32 xs)) = 4 * length xs"
  by (induction xs) (simp_all add: write_u32_def)

lemma read_vector32_write_vector32:
  assumes "4 * length xs < 2 ^ 64"
  shows "read_vector32 old (write_vector32 xs @ rest) = (True, xs, rest)"
proof -
  have len: "unat (of_nat (length xs) :: 64 word) = length xs"
    using assms by (simp add: unat_of_nat)
  show ?thesis
  proof (cases "xs = []")
    case True
    then show ?thesis
      by (simp add: read_vector32_def write_vector32_def read_u64_write_u64 resize_def)
  next
    case False
    then have nz: "(of_nat (length xs) :: 64 word) \<noteq> 0"
      using len by (metis length_0_conv unat_0)
    show ?thesis
      using assms nz
      by (simp add: read_vector32_def write_vector32_def read_u64_write_u64 len
          read_bytes_exact length_encode32 decode_vector32_encode)
  qed
qed

lemma Version_Load_Save:
  "Version_Load (Version_Save self [] @ rest) = Inr (self, rest)"
  by (cases self) (simp add: Version_Load_def Version_Save_def read_u32_write_u32)

lemma SaveBinary_append: "SaveBinary self info fo = fo @ SaveBinary self info []"
  by (cases self) (simp add: SaveBinary_def Version_Save_def)


lemma read_bytes_trunc: "reader_trunc (read_bytes k old)"
proof -
  have "\<exists>k'. length fi = k' + length fi' \<and>
           (\<forall>n. (k' \<le> n \<longrightarrow> read_bytes k old (take n fi) = (True, v, take (n - k') fi')) \<and>
                (n < k' \<longrightarrow> \<not> fst (read_bytes k old (take n fi))))"
    if ok: "read_bytes k old fi = (True, v, fi')" for fi v fi'
  proof -
    from ok have k: "k \<le> length fi" and v: "v = take k fi @ drop k old" and fi': "fi' = drop k fi"
      by (auto simp: read_bytes_def Let_def min_def split: if_splits)
    have "read_bytes k old (take n fi) = (True, v, take (n - k) fi')" if "k \<le> n" for n
      using that k by (simp add: read_bytes_def Let_def v fi' min_def drop_take)
    moreover have "\<not> fst (read_bytes k old (take n fi))" if "n < k" for n
      using that k by (simp add: read_bytes_def Let_def)
    moreover have "length fi = k + length fi'" using k by (simp add: fi')
    ultimately show ?thesis by blast
  qed
  then show ?thesis unfolding reader_trunc_def by blast
qed

lemma reader_trunc_map:
  assumes "reader_trunc r"
  shows "reader_trunc (\<lambda>fi. case r fi of (ok, bs, fi') \<Rightarrow> (ok, f bs, fi'))"
  unfolding reader_trunc_def
proof (intro allI impI)
  fix fi v fi'
  assume a: "(case r fi of (ok, bs, fi') \<Rightarrow> (ok, f bs, fi')) = (True, v, fi')"
  then obtain bs where r: "r fi = (True, bs, fi')" and v: "v = f bs"
    by (auto split: prod.splits)
  from assms r obtain k where k: "length fi = k + length fi'"
    "\<And>n. k \<le> n \<Longrightarrow> r (take n fi) = (True, bs, take (n - k) fi')"
    "\<And>n. n < k \<Longrightarrow> \<not> fst (r (take n fi))"
    unfolding reader_trunc_def by blast
  show "\<exists>k. length fi = k + length fi' \<and>
           (\<forall>n. (k \<le> n \<longrightarrow> (case r (take n fi) of (ok, bs, fi') \<Rightarrow> (ok, f bs, fi')) = (True, v, take (n - k) fi')) \<and>
                (n < k \<longrightarrow> \<not> fst (case r (take n fi) of (ok, bs, fi') \<Rightarrow> (ok, f bs, fi'))))"
  proof (intro exI [of _ k] conjI allI impI)
    show "length fi = k + length fi'" by (rule k(1))
  next
    fix n assume "k \<le> n"
    then show "(case r (take n fi) of (ok, bs, fi') \<Rightarrow> (ok, f bs, fi')) = (True, v, take (n - k) fi')"
      by (simp add: k(2) v)
  next
    fix n assume "n < k"
    then have "\<not> fst (r (take n fi))" by (rule k(3))
    then show "\<not> fst (case r (take n fi) of (ok, bs, fi') \<Rightarrow> (ok, f bs, fi'))"
      by (cases "r (take n fi)") simp
  qed
qed


lemma read_u32_trunc: "reader_trunc (read_u32 old)"
  using reader_trunc_map [OF read_bytes_trunc [of 4 "write_u32 old"], of "\<lambda>bs. of_nat (le_value bs)"]
  by (simp add: read_u32_def [abs_def])



















lemma LoadBinary_SaveBinary_aux:
  assumes "fst self = 1" and "vectors_fit info"
  shows "LoadBinary self (SaveBinary self info [] @ rest) info0 = Inr (info, rest)"
proof -
  have l: "4 * length (labels info) < 2 ^ 64" and g: "4 * length (group_ptr info) < 2 ^ 64"
    and w: "4 * length (weights info) < 2 ^ 64" and b: "4 * length (base_margin info) < 2 ^ 64"
    using assms(2) by (simp_all add: vectors_fit_def)
  have v: "Version_Load (Version_Save self [] @ tl) = Inr (self, tl)" for tl
    by (rule Version_Load_Save)
  show ?thesis
    using assms(1)
    by (simp add: LoadBinary_def SaveBinary_def v CHECK_read_def read_u64_write_u64
        read_vector32_write_vector32 [OF l] read_vector32_write_vector32 [OF g]
        read_vector32_write_vector32 [OF w] read_vector32_write_vector32 [OF b])
qed

text \<open>
  Claim C8. For every \<^verbatim>\<open>MetaInfo\<close> whose vectors fit in memory, written by a build whose
  major version is the supported one, \<^verbatim>\<open>LoadBinary\<close> applied to what \<^verbatim>\<open>SaveBinary\<close> wrote
  succeeds and yields exactly the saved \<^verbatim>\<open>num_row_\<close>, \<^verbatim>\<open>num_col_\<close>, \<^verbatim>\<open>num_nonzero_\<close> and the
  four arrays, whatever the instance held before and whatever follows in the stream.
  \<^verbatim>\<open>SaveBinary\<close> writes the version tag, the three counters and then the length-prefixed
  arrays \<^verbatim>\<open>labels_\<close>, \<^verbatim>\<open>group_ptr_\<close>, \<^verbatim>\<open>weights_\<close>, \<^verbatim>\<open>base_margin_\<close>, in this order.
\<close>

theorem SaveBinary_LoadBinary_roundtrip:
  "(fst self = 1 \<and> vectors_fit info \<longrightarrow>
      LoadBinary self (SaveBinary self info [] @ rest) info0 = Inr (info, rest))
   \<and> SaveBinary self info fo =
       fo @ Version_Save self [] @ write_u64 (num_row info) @ write_u64 (num_col info)
          @ write_u64 (num_nonzero info) @ write_vector32 (labels info)
          @ write_vector32 (group_ptr info) @ write_vector32 (weights info)
          @ write_vector32 (base_margin info)"
proof -
  have "SaveBinary self info fo =
       fo @ Version_Save self [] @ write_u64 (num_row info) @ write_u64 (num_col info)
          @ write_u64 (num_nonzero info) @ write_vector32 (labels info)
          @ write_vector32 (group_ptr info) @ write_vector32 (weights info)
          @ write_vector32 (base_margin info)"
    by (cases self) (simp add: SaveBinary_def Version_Save_def)
  then show ?thesis using LoadBinary_SaveBinary_aux by blast
qed

theorem SaveBinary_LoadBinary_roundtrip_witness:
  "fst ((1, 2, 3) :: version) = 1
   \<and> vectors_fit \<lparr>num_row = 2, num_col = 3, num_nonzero = 4, labels = [7, 8],
        group_ptr = [0, 1, 2], weights = [], base_margin = [9]\<rparr>
   \<and> LoadBinary (1, 2, 3)
        (SaveBinary (1, 2, 3) \<lparr>num_row = 2, num_col = 3, num_nonzero = 4, labels = [7, 8],
           group_ptr = [0, 1, 2], weights = [], base_margin = [9]\<rparr> [] @ [])
        \<lparr>num_row = 0, num_col = 0, num_nonzero = 0, labels = [], group_ptr = [],
           weights = [], base_margin = []\<rparr>
      = Inr (\<lparr>num_row = 2, num_col = 3, num_nonzero = 4, labels = [7, 8],
           group_ptr = [0, 1, 2], weights = [], base_margin = [9]\<rparr>, [])"
  using SaveBinary_LoadBinary_roundtrip [where self = "(1, 2, 3)"
      and info = "\<lparr>num_row = 2, num_col = 3, num_nonzero = 4, labels = [7, 8],
        group_ptr = [0, 1, 2], weights = [], base_margin = [9]\<rparr>" and rest = "[]"
      and ?info0.0 = "\<lparr>num_row = 0, num_col = 0, num_nonzero = 0, labels = [], group_ptr = [],
           weights = [], base_margin = []\<rparr>" and fo = "[]", THEN conjunct1]
  by (simp add: vectors_fit_def)




















section \<open>Properties of DMatrix::Create\<close>

lemma sum_list_single_rank:
  "i < n \<Longrightarrow> sum_list (map (\<lambda>r. (replicate n (0::64 word))[r := c r] ! i) [0..<n]) = c i"
proof -
  assume i: "i < n"
  have "map (\<lambda>r. (replicate n (0::64 word))[r := c r] ! i) [0..<n]
      = map (\<lambda>r. if r = i then c r else 0) [0..<n]"
    using i by (intro map_cong) (auto simp: nth_list_update)
  then have "sum_list (map (\<lambda>r. (replicate n (0::64 word))[r := c r] ! i) [0..<n])
      = sum (\<lambda>r. if r = i then c r else 0) (set [0..<n])"
    by (simp add: interv_sum_list_conv_sum_set_nat)
  also have "\<dots> = c i" using i by (simp add: sum.delta)
  finally show ?thesis .
qed

lemma Allreduce_Sum_ncols:
  "Allreduce_Sum (map (\<lambda>r. worker_ncols (length sources) r (sources ! r)) [0..<length sources])
     (length sources) = map num_col sources"
proof (rule nth_equalityI)
  show "length (Allreduce_Sum (map (\<lambda>r. worker_ncols (length sources) r (sources ! r))
      [0..<length sources]) (length sources)) = length (map num_col sources)"
    by (simp add: Allreduce_Sum_def)
next
  fix i
  assume "i < length (Allreduce_Sum (map (\<lambda>r. worker_ncols (length sources) r (sources ! r))
      [0..<length sources]) (length sources))"
  then have i: "i < length sources" by (simp add: Allreduce_Sum_def)
  then show "Allreduce_Sum (map (\<lambda>r. worker_ncols (length sources) r (sources ! r))
      [0..<length sources]) (length sources) ! i = map num_col sources ! i"
    using sum_list_single_rank [OF i, of "\<lambda>r. num_col (sources ! r)"]
    by (simp add: Allreduce_Sum_def worker_ncols_def comp_def)
qed

lemma max_element_spec:
  assumes "largest < first" "first \<le> length xs"
    and "\<forall>j < first. xs ! j \<le> xs ! largest"
  shows "max_element xs largest first < length xs
     \<and> (\<forall>j < length xs. xs ! j \<le> xs ! max_element xs largest first)"
  using assms
proof (induction xs largest first rule: max_element.induct)
  case (1 xs largest first)
  show ?case
  proof (cases "first < length xs")
    case False
    then show ?thesis using "1.prems" by (subst (1 2) max_element.simps) auto
  next
    case True
    let ?l = "if xs ! largest < xs ! first then first else largest"
    have "?l < first + 1" using "1.prems"(1) by simp
    moreover have "first + 1 \<le> length xs" using True by simp
    moreover have "\<forall>j < first + 1. xs ! j \<le> xs ! ?l"
    proof (intro allI impI)
      fix j assume "j < first + 1"
      then consider "j < first" | "j = first" by linarith
      then show "xs ! j \<le> xs ! ?l"
      proof cases
        case 1
        then have "xs ! j \<le> xs ! largest" using "1.prems"(3) by simp
        then show ?thesis by auto
      next
        case 2
        then show ?thesis by auto
      qed
    qed
    ultimately have "max_element xs ?l (first + 1) < length xs
       \<and> (\<forall>j < length xs. xs ! j \<le> xs ! max_element xs ?l (first + 1))"
      using "1.IH" [OF True] by blast
    then show ?thesis using True by (subst (1 2) max_element.simps) simp
  qed
qed

lemma max_element_Max:
  assumes "xs \<noteq> []"
  shows "max_element xs 0 1 < length xs" and "xs ! max_element xs 0 1 = Max (set xs)"
proof -
  have "(0::nat) < 1" "1 \<le> length xs" "\<forall>j < 1. xs ! j \<le> xs ! 0"
    using assms by (simp_all add: Suc_leI)
  from max_element_spec [OF this]
  have lt: "max_element xs 0 1 < length xs"
    and ge: "\<forall>j < length xs. xs ! j \<le> xs ! max_element xs 0 1" by simp_all
  show "max_element xs 0 1 < length xs" by (rule lt)
  show "xs ! max_element xs 0 1 = Max (set xs)"
  proof (rule sym, rule Max_eqI)
    show "finite (set xs)" by simp
    show "y \<le> xs ! max_element xs 0 1" if "y \<in> set xs" for y
      using that ge by (auto simp: in_set_conv_nth)
    show "xs ! max_element xs 0 1 \<in> set xs" using lt by simp
  qed
qed

lemma validate_ncols_pass:
  assumes "\<forall>j. i \<le> j \<and> j < length ncols \<longrightarrow> ncols ! j = 0 \<or> ncols ! j = max_cols"
  shows "validate_ncols ncols max_cols max_ind i = None"
  using assms
proof (induction ncols max_cols max_ind i rule: validate_ncols.induct)
  case (1 ncols max_cols max_ind i)
  show ?case
  proof (cases "i < length ncols")
    case False
    then show ?thesis by (subst validate_ncols.simps) simp
  next
    case True
    then have ok: "ncols ! i = 0 \<or> ncols ! i = max_cols" using "1.prems" by simp
    have "validate_ncols ncols max_cols max_ind (i + 1) = None"
      using "1.IH" [OF True refl ok] "1.prems" by simp
    then show ?thesis using True ok by (subst validate_ncols.simps) (simp add: Let_def)
  qed
qed

lemma validate_ncols_fail:
  assumes "i \<le> k" "k < length ncols" "ncols ! k \<noteq> 0" "ncols ! k \<noteq> max_cols"
    and "\<forall>j. i \<le> j \<and> j < k \<longrightarrow> ncols ! j = 0 \<or> ncols ! j = max_cols"
  shows "validate_ncols ncols max_cols max_ind i =
     Some (ConsistencyError (mismatch_message k max_ind (ncols ! k) max_cols))"
  using assms
proof (induction ncols max_cols max_ind i rule: validate_ncols.induct)
  case (1 ncols max_cols max_ind i)
  have i: "i < length ncols" using "1.prems" by simp
  show ?case
  proof (cases "i = k")
    case True
    then show ?thesis using "1.prems" by (subst validate_ncols.simps) (simp add: Let_def)
  next
    case False
    then have lt: "i < k" using "1.prems"(1) by simp
    then have ok: "ncols ! i = 0 \<or> ncols ! i = max_cols" using "1.prems"(5) by simp
    have "validate_ncols ncols max_cols max_ind (i + 1) =
       Some (ConsistencyError (mismatch_message k max_ind (ncols ! k) max_cols))"
      using "1.IH" [OF i refl ok] "1.prems" lt by simp
    then show ?thesis using i ok by (subst validate_ncols.simps) (simp add: Let_def)
  qed
qed

lemma Create_distributed:
  assumes "is_distributed e" and "sources \<noteq> []"
  shows "Create e sources [] =
     (let ncols = map num_col sources;
          max_ind = max_element ncols 0 1;
          max_cols = Max (set ncols);
          info = sources ! rank e;
          info' = (if num_col info = 0 \<and> num_row info = 0
                   then info\<lparr>num_col := max_cols\<rparr> else info)
      in case validate_ncols ncols max_cols max_ind 0 of
           Some err \<Rightarrow> Inl err
         | None \<Rightarrow> Inr (SimpleDMatrix info'))"
proof -
  have "map num_col sources \<noteq> []" using assms(2) by simp
  from max_element_Max(2) [OF this]
  have m: "map num_col sources ! max_element (map num_col sources) 0 1
      = Max (set (map num_col sources))" .
  show ?thesis
    unfolding Create_def Let_def Allreduce_Sum_ncols m using assms(1) by simp
qed

lemma max_element_first:
  assumes "largest < first" "first \<le> length xs"
    and "\<forall>j < largest. xs ! j < xs ! largest"
    and "\<forall>j < first. xs ! j \<le> xs ! largest"
  shows "\<forall>j < max_element xs largest first. xs ! j < xs ! max_element xs largest first"
  using assms
proof (induction xs largest first rule: max_element.induct)
  case (1 xs largest first)
  show ?case
  proof (cases "first < length xs")
    case False
    then show ?thesis using "1.prems" by (subst (1 2) max_element.simps) auto
  next
    case True
    let ?l = "if xs ! largest < xs ! first then first else largest"
    have a: "?l < first + 1" using "1.prems"(1) by simp
    have b: "first + 1 \<le> length xs" using True by simp
    have c: "\<forall>j < ?l. xs ! j < xs ! ?l"
    proof (intro allI impI)
      fix j assume j: "j < ?l"
      show "xs ! j < xs ! ?l"
      proof (cases "xs ! largest < xs ! first")
        case True
        then have "j < first" using j by simp
        then have "xs ! j \<le> xs ! largest" using "1.prems"(4) by simp
        then show ?thesis using True by simp
      next
        case False
        then show ?thesis using j "1.prems"(3) by simp
      qed
    qed
    have d: "\<forall>j < first + 1. xs ! j \<le> xs ! ?l"
    proof (intro allI impI)
      fix j assume "j < first + 1"
      then consider "j < first" | "j = first" by linarith
      then show "xs ! j \<le> xs ! ?l"
      proof cases
        case 1
        then have "xs ! j \<le> xs ! largest" using "1.prems"(4) by simp
        then show ?thesis by auto
      next
        case 2
        then show ?thesis by auto
      qed
    qed
    have "\<forall>j < max_element xs ?l (first + 1). xs ! j < xs ! max_element xs ?l (first + 1)"
      using "1.IH" [OF True a b c d] .
    then show ?thesis using True by (subst (1 2) max_element.simps) simp
  qed
qed

lemma max_element_first_Max:
  assumes "xs \<noteq> []"
  shows "\<forall>j < max_element xs 0 1. xs ! j \<noteq> Max (set xs)"
proof -
  have "(0::nat) < 1" "1 \<le> length xs" "\<forall>j < (0::nat). xs ! j < xs ! 0" "\<forall>j < 1. xs ! j \<le> xs ! 0"
    using assms by (simp_all add: Suc_leI)
  from max_element_first [OF this]
  have "\<forall>j < max_element xs 0 1. xs ! j < xs ! max_element xs 0 1" .
  then show ?thesis using max_element_Max(2) [OF assms] by auto
qed

lemma Create_mismatch_text:
  assumes "is_distributed e" and "i < length sources" and "num_col (sources ! i) \<noteq> 0"
    and "num_col (sources ! i) \<noteq> Max (set (map num_col sources))"
  shows "\<exists>k m. k \<le> i \<and> num_col (sources ! k) \<noteq> 0
      \<and> num_col (sources ! k) \<noteq> Max (set (map num_col sources))
      \<and> (\<forall>j<k. num_col (sources ! j) = 0
            \<or> num_col (sources ! j) = Max (set (map num_col sources)))
      \<and> m < length sources \<and> num_col (sources ! m) = Max (set (map num_col sources))
      \<and> (\<forall>j<m. num_col (sources ! j) \<noteq> Max (set (map num_col sources)))
      \<and> Create e sources [] = Inl (ConsistencyError
          (''DMatrix at rank: '' @ show_nat k
             @ '' worker has different number of columns than rank: '' @ show_nat m
             @ '' worker. ('' @ show_nat (unat (num_col (sources ! k))) @ '' vs. ''
             @ show_nat (unat (Max (set (map num_col sources)))) @ '')''))"
proof -
  let ?M = "Max (set (map num_col sources))"
  let ?m = "max_element (map num_col sources) 0 1"
  let ?bad = "\<lambda>k. k < length sources \<and> num_col (sources ! k) \<noteq> 0 \<and> num_col (sources ! k) \<noteq> ?M"
  let ?k = "LEAST k. ?bad k"
  have ne: "map num_col sources \<noteq> []" using assms(2) by auto
  have bad_i: "?bad i" using assms by simp
  then have bad_k: "?bad ?k" by (rule LeastI)
  have k_le: "?k \<le> i" using bad_i by (rule Least_le)
  have before: "\<forall>j<?k. num_col (sources ! j) = 0 \<or> num_col (sources ! j) = ?M"
  proof (intro allI impI)
    fix j assume j: "j < ?k"
    then have "\<not> ?bad j" using not_less_Least by blast
    moreover have "j < length sources" using j bad_k by simp
    ultimately show "num_col (sources ! j) = 0 \<or> num_col (sources ! j) = ?M" by auto
  qed
  have before': "\<forall>j. 0 \<le> j \<and> j < ?k \<longrightarrow>
      map num_col sources ! j = 0 \<or> map num_col sources ! j = ?M"
    using before bad_k by simp
  have m_lt: "?m < length sources" using max_element_Max(1) [OF ne] by simp
  have m_max: "num_col (sources ! ?m) = ?M"
    using max_element_Max(2) [OF ne] m_lt by simp
  have m_first: "\<forall>j<?m. num_col (sources ! j) \<noteq> ?M"
  proof (intro allI impI)
    fix j assume j: "j < ?m"
    then have "map num_col sources ! j \<noteq> Max (set (map num_col sources))"
      using max_element_first_Max [OF ne] by blast
    moreover have "j < length sources" using j m_lt by simp
    ultimately show "num_col (sources ! j) \<noteq> ?M" by simp
  qed
  have "validate_ncols (map num_col sources) ?M ?m 0 =
     Some (ConsistencyError (mismatch_message ?k ?m (map num_col sources ! ?k) ?M))"
    using bad_k before' by (intro validate_ncols_fail) simp_all
  moreover have "sources \<noteq> []" using assms(2) by auto
  ultimately have "Create e sources [] = Inl (ConsistencyError
          (mismatch_message ?k ?m (num_col (sources ! ?k)) ?M))"
    using assms(1) bad_k by (simp add: Create_distributed Let_def)
  then have "Create e sources [] = Inl (ConsistencyError
          (''DMatrix at rank: '' @ show_nat ?k
             @ '' worker has different number of columns than rank: '' @ show_nat ?m
             @ '' worker. ('' @ show_nat (unat (num_col (sources ! ?k))) @ '' vs. ''
             @ show_nat (unat ?M) @ '')''))"
    by (simp add: mismatch_message_def)
  then show ?thesis using bad_k k_le before m_lt m_max m_first by blast
qed

lemma digit_inj:
  assumes "a < 10" "b < 10" "digit a = digit b"
  shows "a = b"
proof -
  have d: "of_char (digit d) = 48 + d" if "d < 10" for d :: nat
  proof -
    from that have "d = 0 \<or> d = 1 \<or> d = 2 \<or> d = 3 \<or> d = 4 \<or> d = 5 \<or> d = 6 \<or> d = 7
        \<or> d = 8 \<or> d = 9" by arith
    then show ?thesis by (elim disjE) (simp_all add: digit_def)
  qed
  have "(of_char (digit a) :: nat) = of_char (digit b)" using assms(3) by simp
  then show ?thesis using d [OF assms(1)] d [OF assms(2)] by simp
qed

lemma show_nat_not_Nil: "show_nat n \<noteq> []"
  by (subst show_nat.simps) simp

lemma show_nat_inj:
  "show_nat n = show_nat m \<Longrightarrow> n = m"
proof (induction n arbitrary: m rule: show_nat.induct)
  case (1 n)
  have sn: "show_nat n = (if n < 10 then [digit n] else show_nat (n div 10) @ [digit (n mod 10)])"
    by (rule show_nat.simps)
  have sm: "show_nat m = (if m < 10 then [digit m] else show_nat (m div 10) @ [digit (m mod 10)])"
    by (rule show_nat.simps)
  show ?case
  proof (cases "n < 10")
    case n: True
    show ?thesis
    proof (cases "m < 10")
      case True
      then have "digit n = digit m" using n "1.prems" sn sm by simp
      then show ?thesis using n True by (intro digit_inj)
    next
      case False
      then have "[digit n] = show_nat (m div 10) @ [digit (m mod 10)]"
        using n "1.prems" sn sm by simp
      then have "show_nat (m div 10) = []" by (simp add: Cons_eq_append_conv)
      then show ?thesis using show_nat_not_Nil by blast
    qed
  next
    case n: False
    show ?thesis
    proof (cases "m < 10")
      case True
      then have "show_nat (n div 10) @ [digit (n mod 10)] = [digit m]"
        using n "1.prems" sn sm by simp
      then have "show_nat (n div 10) = []" by (simp add: append_eq_Cons_conv)
      then show ?thesis using show_nat_not_Nil by blast
    next
      case False
      then have "show_nat (n div 10) @ [digit (n mod 10)] = show_nat (m div 10) @ [digit (m mod 10)]"
        using n "1.prems" sn sm by simp
      then have a: "show_nat (n div 10) = show_nat (m div 10)"
        and b: "digit (n mod 10) = digit (m mod 10)" by simp_all
      have "n div 10 = m div 10" using "1.IH" [OF n a] .
      moreover have "n mod 10 = m mod 10" using b by (intro digit_inj) simp_all
      ultimately show ?thesis by (metis div_mult_mod_eq)
    qed
  qed
qed

lemma Create_agree_aux:
  assumes "is_distributed e" and "rank e < length sources"
    and agree: "\<forall>i<length sources. num_col (sources ! i) = 0
          \<or> num_col (sources ! i) = Max (set (map num_col sources))"
    and empty: "num_col (sources ! rank e) = 0 \<longrightarrow> num_row (sources ! rank e) = 0"
  shows "Create e sources [] =
     Inr (SimpleDMatrix ((sources ! rank e)\<lparr>num_col := Max (set (map num_col sources))\<rparr>))"
proof -
  let ?M = "Max (set (map num_col sources))"
  have ne: "sources \<noteq> []" using assms(2) by auto
  have "validate_ncols (map num_col sources) ?M (max_element (map num_col sources) 0 1) 0 = None"
    using agree by (intro validate_ncols_pass) simp
  moreover have "(if num_col (sources ! rank e) = 0 \<and> num_row (sources ! rank e) = 0
        then (sources ! rank e)\<lparr>num_col := ?M\<rparr> else sources ! rank e)
      = (sources ! rank e)\<lparr>num_col := ?M\<rparr>"
  proof (cases "num_col (sources ! rank e) = 0")
    case True
    then show ?thesis using empty by simp
  next
    case False
    then have "num_col (sources ! rank e) = ?M" using agree assms(2) by blast
    then have "(sources ! rank e)\<lparr>num_col := ?M\<rparr> = sources ! rank e" by (metis MetaInfo.surjective MetaInfo.update_convs(2))
    then show ?thesis by simp
  qed
  ultimately show ?thesis
    using assms(1) ne by (simp add: Create_distributed Let_def)
qed

lemma Create_7_9_7:
  assumes "is_distributed e"
  shows "Create e [MetaInfo_init\<lparr>num_row := 4, num_col := 7\<rparr>,
            MetaInfo_init\<lparr>num_row := 4, num_col := 9\<rparr>,
            MetaInfo_init\<lparr>num_row := 4, num_col := 7\<rparr>] [] =
     Inl (ConsistencyError (''DMatrix at rank: 0 worker has different number of columns ''
        @ ''than rank: 1 worker. (7 vs. 9)''))"
proof -
  have m: "max_element [7, 9, 7] 0 (Suc 0) = Suc 0"
    by (simp add: max_element.simps)
  have v: "validate_ncols [7, 9, 7] 9 (Suc 0) 0 =
    Some (ConsistencyError (mismatch_message 0 (Suc 0) 7 9))"
    by (simp add: validate_ncols.simps)
  have s: "show_nat 0 = ''0''" "show_nat (Suc 0) = ''1''" "show_nat 7 = ''7''" "show_nat 9 = ''9''"
    by (simp_all add: show_nat.simps digit_def)
  show ?thesis
    using assms by (simp add: Create_distributed MetaInfo_init_def m v mismatch_message_def s)
qed


text \<open>
  Claim C3. In a distributed \<^verbatim>\<open>Create\<close> with an empty cache prefix, whenever some worker
  reports a nonzero column count that differs from the maximum of the reports,
  \<^verbatim>\<open>Create\<close> fails with a consistency error on every worker. Its message is the text
  \<^verbatim>\<open>DMatrix at rank: k worker has different number of columns than rank: m worker. (v vs. max)\<close>,
  where \<open>k\<close>, in decimal, is the lowest rank whose nonzero report \<open>v\<close> disagrees with the
  maximum, and \<open>m\<close> is the lowest rank that reports the maximum; different ranks have
  different decimal texts. For the reports 7, 9, 7 the message names rank 0, whose 7
  disagrees with the 9 of rank 1.
\<close>

theorem Create_column_mismatch:
  "(is_distributed e \<and> i < length sources \<and> num_col (sources ! i) \<noteq> 0
      \<and> num_col (sources ! i) \<noteq> Max (set (map num_col sources)) \<longrightarrow>
    (\<exists>k m. k \<le> i \<and> num_col (sources ! k) \<noteq> 0
      \<and> num_col (sources ! k) \<noteq> Max (set (map num_col sources))
      \<and> (\<forall>j<k. num_col (sources ! j) = 0
            \<or> num_col (sources ! j) = Max (set (map num_col sources)))
      \<and> m < length sources \<and> num_col (sources ! m) = Max (set (map num_col sources))
      \<and> (\<forall>j<m. num_col (sources ! j) \<noteq> Max (set (map num_col sources)))
      \<and> Create e sources [] = Inl (ConsistencyError
          (''DMatrix at rank: '' @ show_nat k
             @ '' worker has different number of columns than rank: '' @ show_nat m
             @ '' worker. ('' @ show_nat (unat (num_col (sources ! k))) @ '' vs. ''
             @ show_nat (unat (Max (set (map num_col sources)))) @ '')''))))
   \<and> (show_nat a = show_nat b \<longrightarrow> a = b)
   \<and> (is_distributed e' \<longrightarrow>
      Create e' [MetaInfo_init\<lparr>num_row := 4, num_col := 7\<rparr>,
            MetaInfo_init\<lparr>num_row := 4, num_col := 9\<rparr>,
            MetaInfo_init\<lparr>num_row := 4, num_col := 7\<rparr>] [] =
      Inl (ConsistencyError (''DMatrix at rank: 0 worker has different number of columns ''
        @ ''than rank: 1 worker. (7 vs. 9)'')))"
  using Create_mismatch_text [of e i sources] Create_7_9_7 [of e'] show_nat_inj [of a b]
  by blast

theorem Create_column_mismatch_witness:
  "is_distributed \<lparr>DMLC_ENABLE_STD_THREAD = True, is_distributed = True, rank = 2\<rparr>
   \<and> (0::nat) < length [MetaInfo_init\<lparr>num_row := 4, num_col := 7\<rparr>,
            MetaInfo_init\<lparr>num_row := 4, num_col := 9\<rparr>,
            MetaInfo_init\<lparr>num_row := 4, num_col := 7\<rparr>]
   \<and> num_col ([MetaInfo_init\<lparr>num_row := 4, num_col := 7\<rparr>,
            MetaInfo_init\<lparr>num_row := 4, num_col := 9\<rparr>,
            MetaInfo_init\<lparr>num_row := 4, num_col := 7\<rparr>] ! 0) \<noteq> 0
   \<and> num_col ([MetaInfo_init\<lparr>num_row := 4, num_col := 7\<rparr>,
            MetaInfo_init\<lparr>num_row := 4, num_col := 9\<rparr>,
            MetaInfo_init\<lparr>num_row := 4, num_col := 7\<rparr>] ! 0)
       \<noteq> Max (set (map num_col [MetaInfo_init\<lparr>num_row := 4, num_col := 7\<rparr>,
            MetaInfo_init\<lparr>num_row := 4, num_col := 9\<rparr>,
            MetaInfo_init\<lparr>num_row := 4, num_col := 7\<rparr>]))
   \<and> Create \<lparr>DMLC_ENABLE_STD_THREAD = True, is_distributed = True, rank = 2\<rparr>
         [MetaInfo_init\<lparr>num_row := 4, num_col := 7\<rparr>,
          MetaInfo_init\<lparr>num_row := 4, num_col := 9\<rparr>,
          MetaInfo_init\<lparr>num_row := 4, num_col := 7\<rparr>] [] =
       Inl (ConsistencyError (''DMatrix at rank: '' @ show_nat 0
             @ '' worker has different number of columns than rank: '' @ show_nat 1
             @ '' worker. ('' @ show_nat 7 @ '' vs. '' @ show_nat 9 @ '')''))
   \<and> show_nat 0 = ''0'' \<and> show_nat 1 = ''1'' \<and> show_nat 7 = ''7'' \<and> show_nat 9 = ''9''
   \<and> show_nat 10 \<noteq> show_nat 1
   \<and> Create \<lparr>DMLC_ENABLE_STD_THREAD = True, is_distributed = True, rank = 2\<rparr>
         [MetaInfo_init\<lparr>num_row := 4, num_col := 7\<rparr>,
          MetaInfo_init\<lparr>num_row := 4, num_col := 9\<rparr>,
          MetaInfo_init\<lparr>num_row := 4, num_col := 7\<rparr>] [] =
       Inl (ConsistencyError (''DMatrix at rank: 0 worker has different number of columns ''
        @ ''than rank: 1 worker. (7 vs. 9)''))"
proof -
  let ?e = "\<lparr>DMLC_ENABLE_STD_THREAD = True, is_distributed = True, rank = 2\<rparr>"
  let ?s = "[MetaInfo_init\<lparr>num_row := 4, num_col := 7\<rparr>,
          MetaInfo_init\<lparr>num_row := 4, num_col := 9\<rparr>,
          MetaInfo_init\<lparr>num_row := 4, num_col := 7\<rparr>]"
  have M: "Max (set (map num_col ?s)) = 9" by (simp add: MetaInfo_init_def)
  have c: "num_col (?s ! 0) = 7" by (simp add: MetaInfo_init_def)
  have h: "is_distributed ?e \<and> (0::nat) < length ?s \<and> num_col (?s ! 0) \<noteq> 0
      \<and> num_col (?s ! 0) \<noteq> Max (set (map num_col ?s))"
    unfolding M c by simp
  note inst = Create_column_mismatch [of ?e 0 ?s 10 1 ?e]
  from inst [THEN conjunct1, rule_format, OF h]
  obtain k m where k: "k \<le> 0" and m: "m < length ?s" "num_col (?s ! m) = 9"
      "\<forall>j<m. num_col (?s ! j) \<noteq> 9"
    and r: "Create ?e ?s [] = Inl (ConsistencyError
          (''DMatrix at rank: '' @ show_nat k
             @ '' worker has different number of columns than rank: '' @ show_nat m
             @ '' worker. ('' @ show_nat (unat (num_col (?s ! k))) @ '' vs. ''
             @ show_nat (unat (9 :: 64 word)) @ '')''))"
    unfolding M by blast
  have k0: "k = 0" using k by simp
  have "m = 0 \<or> m = 1 \<or> m = 2" using m(1) by auto
  then have m1: "m = 1" using m(2) by (auto simp: MetaInfo_init_def)
  have c1: "Create ?e ?s [] = Inl (ConsistencyError (''DMatrix at rank: '' @ show_nat 0
             @ '' worker has different number of columns than rank: '' @ show_nat 1
             @ '' worker. ('' @ show_nat 7 @ '' vs. '' @ show_nat 9 @ '')''))"
    using r unfolding k0 m1 c by simp
  have s: "show_nat 0 = ''0''" "show_nat 1 = ''1''" "show_nat 7 = ''7''" "show_nat 9 = ''9''"
    by (simp_all add: show_nat.simps digit_def)
  have d: "show_nat 10 \<noteq> show_nat 1"
    using inst [THEN conjunct2, THEN conjunct1] by auto
  have c2: "Create ?e ?s [] =
       Inl (ConsistencyError (''DMatrix at rank: 0 worker has different number of columns ''
        @ ''than rank: 1 worker. (7 vs. 9)''))"
    using inst [THEN conjunct2, THEN conjunct2] by simp
  from h c1 c2 s d show ?thesis by (simp del: append.simps)
qed

lemma Create_0_7_7:
  assumes "is_distributed e" and "rank e < 3"
  shows "Create e [MetaInfo_init\<lparr>num_row := 0, num_col := 0\<rparr>,
            MetaInfo_init\<lparr>num_row := 4, num_col := 7\<rparr>,
            MetaInfo_init\<lparr>num_row := 5, num_col := 7\<rparr>] [] =
     Inr (SimpleDMatrix (([MetaInfo_init\<lparr>num_row := 0, num_col := 0\<rparr>,
            MetaInfo_init\<lparr>num_row := 4, num_col := 7\<rparr>,
            MetaInfo_init\<lparr>num_row := 5, num_col := 7\<rparr>] ! rank e)\<lparr>num_col := 7\<rparr>))"
proof -
  let ?s = "[MetaInfo_init\<lparr>num_row := 0, num_col := 0\<rparr>,
            MetaInfo_init\<lparr>num_row := 4, num_col := 7\<rparr>,
            MetaInfo_init\<lparr>num_row := 5, num_col := 7\<rparr>]"
  have M: "Max (set (map num_col ?s)) = 7" by (simp add: MetaInfo_init_def)
  have r: "rank e = 0 \<or> rank e = 1 \<or> rank e = 2" using assms(2) by auto
  have a: "\<forall>i<length ?s. num_col (?s ! i) = 0 \<or> num_col (?s ! i) = Max (set (map num_col ?s))"
    unfolding M by (auto simp: MetaInfo_init_def less_Suc_eq)
  have b: "num_col (?s ! rank e) = 0 \<longrightarrow> num_row (?s ! rank e) = 0"
    using r by (auto simp: MetaInfo_init_def)
  have "rank e < length ?s" using assms(2) by simp
  from Create_agree_aux [OF assms(1) this a b] show ?thesis unfolding M .
qed

text \<open>
  Claim C2, as amended. In a distributed \<^verbatim>\<open>Create\<close> with an empty cache prefix, when no
  nonzero report disagrees with the maximum of the reports, no error is raised, and
  the column count of a worker that holds no rows whenever it reports zero columns is
  resolved to that maximum: a worker with zero rows and zero columns adopts it, a worker
  with a nonzero count has it already. When the reports are 0, 7, 7 and the worker
  reporting 0 holds no rows, the column count of each of the three workers becomes 7.
\<close>

theorem Create_resolved_columns:
  "(is_distributed e \<and> rank e < length sources
      \<and> (\<forall>i<length sources. num_col (sources ! i) = 0
            \<or> num_col (sources ! i) = Max (set (map num_col sources)))
      \<and> (num_col (sources ! rank e) = 0 \<longrightarrow> num_row (sources ! rank e) = 0) \<longrightarrow>
    Create e sources [] =
      Inr (SimpleDMatrix ((sources ! rank e)\<lparr>num_col := Max (set (map num_col sources))\<rparr>)))
   \<and> (is_distributed e' \<and> rank e' < 3 \<longrightarrow>
      Create e' [MetaInfo_init\<lparr>num_row := 0, num_col := 0\<rparr>,
            MetaInfo_init\<lparr>num_row := 4, num_col := 7\<rparr>,
            MetaInfo_init\<lparr>num_row := 5, num_col := 7\<rparr>] [] =
      Inr (SimpleDMatrix (([MetaInfo_init\<lparr>num_row := 0, num_col := 0\<rparr>,
            MetaInfo_init\<lparr>num_row := 4, num_col := 7\<rparr>,
            MetaInfo_init\<lparr>num_row := 5, num_col := 7\<rparr>] ! rank e')\<lparr>num_col := 7\<rparr>)))"
  using Create_agree_aux [of e sources] Create_0_7_7 [of e'] by blast

theorem Create_resolved_columns_witness:
  "is_distributed \<lparr>DMLC_ENABLE_STD_THREAD = True, is_distributed = True, rank = 0\<rparr>
   \<and> rank \<lparr>DMLC_ENABLE_STD_THREAD = True, is_distributed = True, rank = 0\<rparr>
        < length [MetaInfo_init\<lparr>num_row := 0, num_col := 0\<rparr>,
            MetaInfo_init\<lparr>num_row := 4, num_col := 7\<rparr>]
   \<and> length [MetaInfo_init\<lparr>num_row := 0, num_col := 0\<rparr>,
            MetaInfo_init\<lparr>num_row := 4, num_col := 7\<rparr>] = 2
   \<and> num_col ([MetaInfo_init\<lparr>num_row := 0, num_col := 0\<rparr>,
            MetaInfo_init\<lparr>num_row := 4, num_col := 7\<rparr>] ! 0) = 0
   \<and> num_col ([MetaInfo_init\<lparr>num_row := 0, num_col := 0\<rparr>,
            MetaInfo_init\<lparr>num_row := 4, num_col := 7\<rparr>] ! 1) = 7
   \<and> Max (set (map num_col [MetaInfo_init\<lparr>num_row := 0, num_col := 0\<rparr>,
            MetaInfo_init\<lparr>num_row := 4, num_col := 7\<rparr>])) = 7
   \<and> num_row ([MetaInfo_init\<lparr>num_row := 0, num_col := 0\<rparr>,
            MetaInfo_init\<lparr>num_row := 4, num_col := 7\<rparr>] ! 0) = 0
   \<and> Create \<lparr>DMLC_ENABLE_STD_THREAD = True, is_distributed = True, rank = 0\<rparr>
        [MetaInfo_init\<lparr>num_row := 0, num_col := 0\<rparr>,
         MetaInfo_init\<lparr>num_row := 4, num_col := 7\<rparr>] [] =
      Inr (SimpleDMatrix (MetaInfo_init\<lparr>num_row := 0, num_col := 7\<rparr>))
   \<and> rank \<lparr>DMLC_ENABLE_STD_THREAD = True, is_distributed = True, rank = 0\<rparr> < 3
   \<and> Create \<lparr>DMLC_ENABLE_STD_THREAD = True, is_distributed = True, rank = 0\<rparr>
        [MetaInfo_init\<lparr>num_row := 0, num_col := 0\<rparr>,
         MetaInfo_init\<lparr>num_row := 4, num_col := 7\<rparr>,
         MetaInfo_init\<lparr>num_row := 5, num_col := 7\<rparr>] [] =
      Inr (SimpleDMatrix (MetaInfo_init\<lparr>num_row := 0, num_col := 7\<rparr>))"
proof -
  let ?e = "\<lparr>DMLC_ENABLE_STD_THREAD = True, is_distributed = True, rank = 0\<rparr>"
  let ?s = "[MetaInfo_init\<lparr>num_row := 0, num_col := 0\<rparr>,
            MetaInfo_init\<lparr>num_row := 4, num_col := 7\<rparr>]"
  have M: "Max (set (map num_col ?s)) = 7" by (simp add: MetaInfo_init_def)
  have a: "\<forall>i<length ?s. num_col (?s ! i) = 0 \<or> num_col (?s ! i) = 7"
    by (auto simp: MetaInfo_init_def less_Suc_eq)
  have h: "is_distributed ?e \<and> rank ?e < length ?s
      \<and> (\<forall>i<length ?s. num_col (?s ! i) = 0 \<or> num_col (?s ! i) = Max (set (map num_col ?s)))
      \<and> (num_col (?s ! rank ?e) = 0 \<longrightarrow> num_row (?s ! rank ?e) = 0)"
    unfolding M using a by (simp add: MetaInfo_init_def)
  from Create_resolved_columns [of ?e ?s ?e, THEN conjunct1, rule_format, OF h]
  have c1: "Create ?e ?s [] = Inr (SimpleDMatrix (MetaInfo_init\<lparr>num_row := 0, num_col := 7\<rparr>))"
    unfolding M by simp
  have c2: "Create ?e [MetaInfo_init\<lparr>num_row := 0, num_col := 0\<rparr>,
         MetaInfo_init\<lparr>num_row := 4, num_col := 7\<rparr>,
         MetaInfo_init\<lparr>num_row := 5, num_col := 7\<rparr>] [] =
      Inr (SimpleDMatrix (MetaInfo_init\<lparr>num_row := 0, num_col := 7\<rparr>))"
    using Create_resolved_columns [of ?e ?s ?e, THEN conjunct2] by simp
  show ?thesis using M c1 c2 by (simp add: MetaInfo_init_def)
qed

text \<open>
  Claim C2 as stated does not hold: with the reports 0, 7, 7, a worker that reports zero
  columns but holds five rows keeps the column count 0, and no error is raised.
\<close>

theorem Create_zero_columns_counterexample:
  "Create \<lparr>DMLC_ENABLE_STD_THREAD = True, is_distributed = True, rank = 0\<rparr>
     [\<lparr>num_row = 5, num_col = 0, num_nonzero = 0, labels = [], group_ptr = [],
         weights = [], base_margin = []\<rparr>,
      \<lparr>num_row = 4, num_col = 7, num_nonzero = 9, labels = [], group_ptr = [],
         weights = [], base_margin = []\<rparr>,
      \<lparr>num_row = 6, num_col = 7, num_nonzero = 9, labels = [], group_ptr = [],
         weights = [], base_margin = []\<rparr>] [] =
   Inr (SimpleDMatrix \<lparr>num_row = 5, num_col = 0, num_nonzero = 0, labels = [], group_ptr = [],
         weights = [], base_margin = []\<rparr>)"
proof -
  have m: "max_element [0, 7, 7] 0 (Suc 0) = Suc 0"
    by (simp add: max_element.simps)
  have v: "validate_ncols [0, 7, 7] 7 (Suc 0) 0 = None"
    by (simp add: validate_ncols.simps)
  show ?thesis
    by (simp add: Create_distributed m v)
qed

section \<open>Properties of SparsePage::Push\<close>

lemma for_each_append:
  "for_each body (xs @ ys) s =
     (case for_each body xs s of Inl e \<Rightarrow> Inl e | Inr s' \<Rightarrow> for_each body ys s')"
  by (induction xs arbitrary: s) (auto split: sum.splits)

lemma u64_id: "n < size_range \<Longrightarrow> u64 n = n"
  by (simp add: u64_def)

lemma sub64_id:
  assumes "b \<le> a" and "a < size_range"
  shows "sub64 a b = a - b"
proof -
  have lt: "a - b < size_range" using assms(2) by (rule less_imp_diff_less)
  have "b < size_range" using assms by (rule le_less_trans)
  then have b: "b mod size_range = b" by (rule mod_less)
  have "a + size_range - b = (a - b) + size_range" using assms(1) by (rule Nat.diff_add_assoc2)
  then have "sub64 a b = ((a - b) + size_range) mod size_range" by (simp only: sub64_def b)
  also have "\<dots> = (a - b) mod size_range" by (rule mod_add_self2)
  also have "\<dots> = a - b" using lt by (rule mod_less)
  finally show ?thesis .
qed

lemma memcpy_append:
  "memcpy (xs @ replicate (length ys) d) (length xs) ys 0 (length ys) = Some (xs @ ys)"
  by (simp add: memcpy_def)

lemma Push_offsets_loop:
  assumes "k \<le> n" and "n < length boff"
  shows "for_each (Push_offset (length xs) t boff) [0..<k] (xs @ replicate n 0) =
     Inr (xs @ map (\<lambda>i. u64 (t + boff ! (i + 1))) [0..<k] @ replicate (n - k) 0)"
  using assms(1)
proof (induction k)
  case 0
  then show ?case by simp
next
  case (Suc k)
  have k: "k < n" using Suc.prems by simp
  have upd: "(xs @ map (\<lambda>i. u64 (t + boff ! (i + 1))) [0..<k] @ replicate (n - k) 0)
      [k + length xs := u64 (t + boff ! (k + 1))]
    = xs @ map (\<lambda>i. u64 (t + boff ! (i + 1))) [0..<Suc k] @ replicate (n - Suc k) 0"
  proof -
    have "replicate (n - k) (0::nat) = 0 # replicate (n - Suc k) 0"
      using k by (metis Suc_diff_Suc replicate_Suc)
    then show ?thesis by (simp add: list_update_append)
  qed
  have "Push_offset (length xs) t boff k
      (xs @ map (\<lambda>i. u64 (t + boff ! (i + 1))) [0..<k] @ replicate (n - k) 0)
    = Inr (xs @ map (\<lambda>i. u64 (t + boff ! (i + 1))) [0..<Suc k] @ replicate (n - Suc k) 0)"
    using k assms(2) upd by (simp add: Push_offset_def)
  then show ?case using Suc.IH k by (simp add: for_each_append)
qed

lemma map_nth_tl: "map (\<lambda>i. f (xs ! Suc i)) [0..<length xs - Suc 0] = map f (tl xs)"
  by (rule nth_equalityI) (simp_all add: nth_tl)

lemma Push_run:
  assumes P: "offset P \<noteq> []" "last (offset P) = length (data P)"
    and Q: "offset Q \<noteq> []"
    and fit: "length (data P) + length (data Q) < size_range"
      "length (offset P) + length (offset Q) < size_range"
  shows "Push P Q = Inr (P\<lparr>offset := offset P @ map (\<lambda>x. u64 (length (data P) + x)) (tl (offset Q)),
      data := data P @ data Q\<rparr>)"
proof -
  let ?n = "Size Q"
  have n: "?n < length (offset Q)" using Q by (simp add: Size_def)
  have d: "resize Entry_init (u64 (length (data P) + length (data Q))) (data P)
      = data P @ replicate (length (data Q)) Entry_init"
    using fit(1) by (simp add: u64_id resize_def)
  have o: "resize 0 (u64 (length (offset P) + ?n)) (offset P) = offset P @ replicate ?n 0"
    using fit(2) by (simp add: u64_id resize_def Size_def)
  have loop: "for_each (Push_offset (length (offset P)) (length (data P)) (offset Q)) [0..<?n]
      (offset P @ replicate ?n 0)
    = Inr (offset P @ map (\<lambda>x. u64 (length (data P) + x)) (tl (offset Q)))"
    using Push_offsets_loop [OF le_refl n, of "offset P" "length (data P)"]
      map_nth_tl [of "\<lambda>x. u64 (length (data P) + x)" "offset Q"]
    by (simp add: Size_def)
  show ?thesis
    using P(1) by (simp add: Push_def P(2) d memcpy_append Let_def o loop)
qed

lemma page_inv_offset_le:
  assumes "page_inv Q" and "x \<in> set (offset Q)"
  shows "x \<le> length (data Q)"
proof -
  from assms(1) have ne: "offset Q \<noteq> []" and s: "sorted (offset Q)"
    and l: "last (offset Q) = length (data Q)" by (simp_all add: page_inv_def)
  from assms(2) obtain i where i: "i < length (offset Q)" "offset Q ! i = x"
    by (auto simp: in_set_conv_nth)
  have "offset Q ! i \<le> offset Q ! (length (offset Q) - 1)"
    using s i(1) ne by (intro sorted_nth_mono) simp_all
  then show ?thesis using i(2) l ne by (simp add: last_conv_nth)
qed

lemma Push_valid:
  assumes P: "page_inv P" and Q: "page_inv Q"
    and fit: "length (data P) + length (data Q) < size_range"
      "length (offset P) + length (offset Q) < size_range"
  shows "Push P Q = Inr (P\<lparr>offset := offset P @ map (\<lambda>x. length (data P) + x) (tl (offset Q)),
      data := data P @ data Q\<rparr>)"
proof -
  have "u64 (length (data P) + x) = length (data P) + x" if "x \<in> set (tl (offset Q))" for x
  proof -
    have "x \<in> set (offset Q)" using that by (rule list.set_sel(2) [rotated]) (use Q in \<open>auto simp: page_inv_def\<close>)
    then have "x \<le> length (data Q)" using Q by (intro page_inv_offset_le)
    then have "length (data P) + x < size_range" using fit(1) by simp
    then show ?thesis by (rule u64_id)
  qed
  then have "map (\<lambda>x. u64 (length (data P) + x)) (tl (offset Q))
      = map (\<lambda>x. length (data P) + x) (tl (offset Q))"
    by (intro map_cong) simp_all
  moreover have "offset P \<noteq> []" "last (offset P) = length (data P)" "offset Q \<noteq> []"
    using P Q by (simp_all add: page_inv_def)
  ultimately show ?thesis using Push_run [OF _ _ _ fit] by simp
qed

lemma page_inv_Push_result:
  assumes P: "page_inv P" and Q: "page_inv Q"
  shows "page_inv (P\<lparr>offset := offset P @ map (\<lambda>x. length (data P) + x) (tl (offset Q)),
      data := data P @ data Q\<rparr>)"
proof -
  from P have neP: "offset P \<noteq> []" and zP: "offset P ! 0 = 0" and sP: "sorted (offset P)"
    and lP: "last (offset P) = length (data P)" by (simp_all add: page_inv_def)
  from Q have neQ: "offset Q \<noteq> []" and zQ: "offset Q ! 0 = 0" and sQ: "sorted (offset Q)"
    and lQ: "last (offset Q) = length (data Q)" by (simp_all add: page_inv_def)
  let ?app = "map (\<lambda>x. length (data P) + x) (tl (offset Q))"
  have z: "(offset P @ ?app) ! 0 = 0" using neP zP by (simp add: nth_append)
  have "sorted (tl (offset Q))" using sQ by (rule sorted_tl)
  then have sapp: "sorted ?app" by (simp add: sorted_iff_nth_mono)
  have "x \<le> y" if "x \<in> set (offset P)" "y \<in> set ?app" for x y
  proof -
    have "x \<le> length (data P)" using P that(1) by (rule page_inv_offset_le)
    moreover have "length (data P) \<le> y" using that(2) by auto
    ultimately show ?thesis by simp
  qed
  then have s: "sorted (offset P @ ?app)" using sP sapp by (simp add: sorted_append)
  have l: "last (offset P @ ?app) = length (data P) + length (data Q)"
  proof (cases "tl (offset Q) = []")
    case True
    then have "offset Q = [offset Q ! 0]" using neQ by (cases "offset Q") simp_all
    then have "last (offset Q) = 0" using zQ by (metis last.simps)
    then show ?thesis using True lP lQ by simp
  next
    case False
    then have "last ?app = length (data P) + last (tl (offset Q))" by (simp add: last_map)
    moreover have "last (tl (offset Q)) = last (offset Q)" using False by (simp add: last_tl)
    ultimately show ?thesis using False lQ by simp
  qed
  show ?thesis using neP z s l by (simp add: page_inv_def)
qed

text \<open>
  Claim C5. For any two pages \<open>P\<close> and \<open>Q\<close> that satisfy the page invariant (so
  \<open>Q.offset[0] = 0\<close>) and whose combined sizes are \<^verbatim>\<open>size_t\<close> values, \<open>Push(P, Q)\<close> succeeds
  and yields the concatenation: its offset array has \<open>P.offset.size() + Q.offset.size() - 1\<close>
  elements and starts with \<open>P.offset\<close>, its data array is \<open>P.data\<close> followed by \<open>Q.data\<close>,
  of length \<open>P.data.size() + Q.data.size()\<close>, and its appended offset \<open>i\<close> is
  \<open>priorTotal + Q.offset[i+1]\<close>, where \<open>priorTotal\<close> is the number of entries of \<open>P\<close>.
\<close>

theorem Push_concatenation:
  "page_inv P \<and> page_inv Q \<and> offset Q ! 0 = 0
     \<and> length (data P) + length (data Q) < size_range
     \<and> length (offset P) + length (offset Q) < size_range \<longrightarrow>
   (\<exists>R. Push P Q = Inr R
      \<and> length (offset R) = length (offset P) + length (offset Q) - 1
      \<and> length (data R) = length (data P) + length (data Q)
      \<and> data R = data P @ data Q
      \<and> take (length (offset P)) (offset R) = offset P
      \<and> (\<forall>i<Size Q. offset R ! (length (offset P) + i) = length (data P) + offset Q ! (i + 1))
      \<and> base_rowid R = base_rowid P)"
proof (intro impI)
  assume a: "page_inv P \<and> page_inv Q \<and> offset Q ! 0 = 0
     \<and> length (data P) + length (data Q) < size_range
     \<and> length (offset P) + length (offset Q) < size_range"
  let ?R = "P\<lparr>offset := offset P @ map (\<lambda>x. length (data P) + x) (tl (offset Q)),
      data := data P @ data Q\<rparr>"
  have run: "Push P Q = Inr ?R" using a by (intro Push_valid) simp_all
  have neQ: "offset Q \<noteq> []" using a by (simp add: page_inv_def)
  have len: "length (offset ?R) = length (offset P) + length (offset Q) - 1"
    using neQ by (cases "offset Q") simp_all
  have nth: "offset ?R ! (length (offset P) + i) = length (data P) + offset Q ! (i + 1)"
    if "i < Size Q" for i
    using that by (simp add: Size_def nth_append nth_tl)
  show "\<exists>R. Push P Q = Inr R
      \<and> length (offset R) = length (offset P) + length (offset Q) - 1
      \<and> length (data R) = length (data P) + length (data Q)
      \<and> data R = data P @ data Q
      \<and> take (length (offset P)) (offset R) = offset P
      \<and> (\<forall>i<Size Q. offset R ! (length (offset P) + i) = length (data P) + offset Q ! (i + 1))
      \<and> base_rowid R = base_rowid P"
    using run len nth by (intro exI [of _ ?R]) simp
qed

theorem Push_concatenation_witness:
  "page_inv \<lparr>offset = [0, 2], data = [\<lparr>index = 1, fvalue = 10\<rparr>, \<lparr>index = 3, fvalue = 11\<rparr>],
      base_rowid = 0\<rparr>
   \<and> page_inv \<lparr>offset = [0, 1, 3], data = [\<lparr>index = 0, fvalue = 12\<rparr>,
         \<lparr>index = 2, fvalue = 13\<rparr>, \<lparr>index = 3, fvalue = 14\<rparr>], base_rowid = 1\<rparr>
   \<and> (5::nat) < size_range
   \<and> (\<exists>R. Push \<lparr>offset = [0, 2], data = [\<lparr>index = 1, fvalue = 10\<rparr>, \<lparr>index = 3, fvalue = 11\<rparr>],
         base_rowid = 0\<rparr>
        \<lparr>offset = [0, 1, 3], data = [\<lparr>index = 0, fvalue = 12\<rparr>,
         \<lparr>index = 2, fvalue = 13\<rparr>, \<lparr>index = 3, fvalue = 14\<rparr>], base_rowid = 1\<rparr> = Inr R
      \<and> length (offset R) = 4 \<and> length (data R) = 5
      \<and> offset R ! 2 = 3 \<and> offset R ! 3 = 5)"
proof -
  let ?P = "\<lparr>offset = [0, 2], data = [\<lparr>index = 1, fvalue = 10\<rparr>, \<lparr>index = 3, fvalue = 11\<rparr>],
      base_rowid = 0\<rparr>"
  let ?Q = "\<lparr>offset = [0, 1, 3], data = [\<lparr>index = 0, fvalue = 12\<rparr>,
         \<lparr>index = 2, fvalue = 13\<rparr>, \<lparr>index = 3, fvalue = 14\<rparr>], base_rowid = 1\<rparr>"
  have five: "(5::nat) < size_range" by (simp add: size_range_def)
  have h: "page_inv ?P \<and> page_inv ?Q \<and> offset ?Q ! 0 = 0
     \<and> length (data ?P) + length (data ?Q) < size_range
     \<and> length (offset ?P) + length (offset ?Q) < size_range"
    using five by (simp add: page_inv_def)
  from Push_concatenation [of ?P ?Q, rule_format, OF h]
  obtain R where R: "Push ?P ?Q = Inr R" "length (offset R) = 4" "length (data R) = 5"
    "\<forall>i<Size ?Q. offset R ! (length (offset ?P) + i) = length (data ?P) + offset ?Q ! (i + 1)"
    by auto
  have "offset R ! 2 = 3" "offset R ! 3 = 5"
    using R(4) [rule_format, of 0] R(4) [rule_format, of 1]
    by (simp_all add: Size_def eval_nat_numeral)
  then show ?thesis using h five R by (intro conjI exI [of _ R]) simp_all
qed

section \<open>Properties of SparsePage::PushCSC\<close>

lemma memcpy_fill:
  assumes "n \<le> r" and "spos + n \<le> length src"
  shows "memcpy (pre @ replicate r d) (length pre) src spos n =
     Some ((pre @ take n (drop spos src)) @ replicate (r - n) d)"
  using assms by (simp add: memcpy_def)

lemma PushCSC_column_step:
  assumes so: "k + 1 < length so" "so ! k \<le> so ! (k + 1)" "so ! (k + 1) \<le> length sd"
    and oo: "k + 1 < length oo" "oo ! k \<le> oo ! (k + 1)" "oo ! (k + 1) \<le> length od"
    and fit: "length sd < size_range" "length od < size_range" "length pre + r < size_range"
    and room: "(so ! (k + 1) - so ! k) + (oo ! (k + 1) - oo ! k) \<le> r"
    and ptr: "ptr < length F"
  shows "PushCSC_column sd so od oo k (pre @ replicate r Entry_init, F, length pre, ptr) =
     Inr ((pre @ take (so ! (k + 1) - so ! k) (drop (so ! k) sd)
               @ take (oo ! (k + 1) - oo ! k) (drop (oo ! k) od))
            @ replicate (r - ((so ! (k + 1) - so ! k) + (oo ! (k + 1) - oo ! k))) Entry_init,
          F[ptr := length pre + (so ! (k + 1) - so ! k) + (oo ! (k + 1) - oo ! k)],
          length pre + (so ! (k + 1) - so ! k) + (oo ! (k + 1) - oo ! k), ptr + 1)"
proof -
  let ?ls = "so ! (k + 1) - so ! k" and ?lo = "oo ! (k + 1) - oo ! k"
  have ls: "sub64 (so ! (k + 1)) (so ! k) = ?ls"
    using so(2,3) fit(1) by (intro sub64_id) simp_all
  have lo: "sub64 (oo ! (k + 1)) (oo ! k) = ?lo"
    using oo(2,3) fit(2) by (intro sub64_id) simp_all
  have b1: "u64 (length pre + ?ls) = length pre + ?ls"
    using room fit(3) by (intro u64_id) simp
  have b2: "u64 (length pre + ?ls + ?lo) = length pre + ?ls + ?lo"
    using room fit(3) by (intro u64_id) simp
  have m1: "memcpy (pre @ replicate r Entry_init) (length pre) sd (so ! k) ?ls =
     Some ((pre @ take ?ls (drop (so ! k) sd)) @ replicate (r - ?ls) Entry_init)"
    using room so(2,3) by (intro memcpy_fill) simp_all
  have l1: "length (pre @ take ?ls (drop (so ! k) sd)) = length pre + ?ls"
    using so(2,3) by simp
  have m2: "memcpy ((pre @ take ?ls (drop (so ! k) sd)) @ replicate (r - ?ls) Entry_init)
        (length pre + ?ls) od (oo ! k) ?lo =
     Some (((pre @ take ?ls (drop (so ! k) sd)) @ take ?lo (drop (oo ! k) od))
        @ replicate (r - ?ls - ?lo) Entry_init)"
    using memcpy_fill [of ?lo "r - ?ls" "oo ! k" od "pre @ take ?ls (drop (so ! k) sd)" Entry_init]
      room oo(2,3) unfolding l1 by simp
  have le1: "length pre \<le> length (pre @ replicate r Entry_init)" by simp
  have le2: "length pre + ?ls
      \<le> length ((pre @ take ?ls (drop (so ! k) sd)) @ replicate (r - ?ls) Entry_init)"
    using so(2,3) by simp
  show ?thesis
    unfolding PushCSC_column_def prod.case Let_def ls lo m1 option.case b1 m2 b2
    using so(1) oo(1) ptr le1 le2 by (simp add: diff_diff_left)
qed

lemma sorted_last_bound:
  assumes "sorted off" and "i < length off"
  shows "off ! i \<le> last off"
proof -
  have "off ! i \<le> off ! (length off - 1)"
    using assms by (intro sorted_nth_mono) simp_all
  moreover have "off \<noteq> []" using assms(2) by auto
  ultimately show ?thesis by (simp add: last_conv_nth)
qed

lemma length_column:
  assumes "sorted off" and "i + 1 < length off" and "last off = length xs"
  shows "length (column off xs i) = off ! (i + 1) - off ! i"
proof -
  have "off ! (i + 1) \<le> length xs" using sorted_last_bound [OF assms(1,2)] assms(3) by simp
  then show ?thesis by (simp add: column_def)
qed

lemma PushCSC_loop:
  assumes len: "length so = m + 1" "length oo = m + 1"
    and z: "so ! 0 = 0" "oo ! 0 = 0"
    and s: "sorted so" "sorted oo"
    and l: "last so = length sd" "last oo = length od"
    and fit: "length sd + length od < size_range"
    and k: "k \<le> m"
  shows "for_each (PushCSC_column sd so od oo) [0..<k]
       (replicate (length sd + length od) Entry_init, replicate (m + 1) 0, 0, 1) =
     Inr (merged_columns so sd oo od k
            @ replicate (length sd + length od - (so ! k + oo ! k)) Entry_init,
          map (\<lambda>i. so ! i + oo ! i) [0..<k + 1] @ replicate (m - k) 0,
          so ! k + oo ! k, k + 1)
     \<and> length (merged_columns so sd oo od k) = so ! k + oo ! k"
  using k
proof (induction k)
  case 0
  then show ?case using z by (simp add: merged_columns_def)
next
  case (Suc k)
  have k: "k < m" using Suc.prems by simp
  let ?N = "length sd + length od"
  let ?pre = "merged_columns so sd oo od k"
  let ?ls = "so ! (k + 1) - so ! k" and ?lo = "oo ! (k + 1) - oo ! k"
  from Suc.IH k have IH: "for_each (PushCSC_column sd so od oo) [0..<k]
       (replicate ?N Entry_init, replicate (m + 1) 0, 0, 1) =
     Inr (?pre @ replicate (?N - (so ! k + oo ! k)) Entry_init,
          map (\<lambda>i. so ! i + oo ! i) [0..<k + 1] @ replicate (m - k) 0,
          so ! k + oo ! k, k + 1)"
    and pre: "length ?pre = so ! k + oo ! k" by simp_all
  have so1: "k + 1 < length so" and oo1: "k + 1 < length oo" using k len by simp_all
  have so2: "so ! k \<le> so ! (k + 1)" using s(1) so1 by (intro sorted_nth_mono) simp_all
  have oo2: "oo ! k \<le> oo ! (k + 1)" using s(2) oo1 by (intro sorted_nth_mono) simp_all
  have so3: "so ! (k + 1) \<le> length sd" using sorted_last_bound [OF s(1) so1] l(1) by simp
  have oo3: "oo ! (k + 1) \<le> length od" using sorted_last_bound [OF s(2) oo1] l(2) by simp
  have fit1: "length sd < size_range" "length od < size_range" using fit by simp_all
  have room: "?ls + ?lo \<le> ?N - (so ! k + oo ! k)" using so2 oo2 so3 oo3 by simp
  have fit3: "length ?pre + (?N - (so ! k + oo ! k)) < size_range"
    using pre fit so2 oo2 so3 oo3 by simp
  have ptr: "k + 1 < length (map (\<lambda>i. so ! i + oo ! i) [0..<k + 1] @ replicate (m - k) (0::nat))"
    using k by simp
  have step: "PushCSC_column sd so od oo k
       (?pre @ replicate (?N - (so ! k + oo ! k)) Entry_init,
        map (\<lambda>i. so ! i + oo ! i) [0..<k + 1] @ replicate (m - k) 0, length ?pre, k + 1) =
     Inr ((?pre @ take ?ls (drop (so ! k) sd) @ take ?lo (drop (oo ! k) od))
            @ replicate (?N - (so ! k + oo ! k) - (?ls + ?lo)) Entry_init,
          (map (\<lambda>i. so ! i + oo ! i) [0..<k + 1] @ replicate (m - k) 0)
            [k + 1 := length ?pre + ?ls + ?lo],
          length ?pre + ?ls + ?lo, k + 1 + 1)"
    by (rule PushCSC_column_step [OF so1 so2 so3 oo1 oo2 oo3 fit1 fit3 room ptr])
  have next_pre: "?pre @ take ?ls (drop (so ! k) sd) @ take ?lo (drop (oo ! k) od)
      = merged_columns so sd oo od (Suc k)"
    by (simp add: merged_columns_def column_def)
  have beg: "length ?pre + ?ls + ?lo = so ! Suc k + oo ! Suc k"
    using pre so2 oo2 by simp
  have rest: "?N - (so ! k + oo ! k) - (?ls + ?lo) = ?N - (so ! Suc k + oo ! Suc k)"
    using so2 oo2 by simp
  have upd: "(map (\<lambda>i. so ! i + oo ! i) [0..<k + 1] @ replicate (m - k) 0)
            [k + 1 := so ! Suc k + oo ! Suc k]
      = map (\<lambda>i. so ! i + oo ! i) [0..<Suc k + 1] @ replicate (m - Suc k) 0"
  proof -
    have "replicate (m - k) (0::nat) = 0 # replicate (m - Suc k) 0"
      using k by (metis Suc_diff_Suc replicate_Suc)
    then show ?thesis by (simp add: list_update_append)
  qed
  have len_next: "length (merged_columns so sd oo od (Suc k)) = so ! Suc k + oo ! Suc k"
    using beg so2 so3 oo2 oo3 unfolding next_pre [symmetric] by simp
  have "for_each (PushCSC_column sd so od oo) [0..<Suc k]
       (replicate ?N Entry_init, replicate (m + 1) 0, 0, 1) =
     PushCSC_column sd so od oo k
       (?pre @ replicate (?N - (so ! k + oo ! k)) Entry_init,
        map (\<lambda>i. so ! i + oo ! i) [0..<k + 1] @ replicate (m - k) 0, length ?pre, k + 1)"
    using IH pre by (simp add: for_each_append split: sum.splits)
  also have "\<dots> = Inr (merged_columns so sd oo od (Suc k)
            @ replicate (?N - (so ! Suc k + oo ! Suc k)) Entry_init,
          map (\<lambda>i. so ! i + oo ! i) [0..<Suc k + 1] @ replicate (m - Suc k) 0,
          so ! Suc k + oo ! Suc k, Suc k + 1)"
    unfolding step next_pre beg rest upd by simp
  finally show ?case using len_next by simp
qed

lemma length_merged_columns:
  assumes "sorted so" "sorted oo" "last so = length sd" "last oo = length od"
    and "so ! 0 = 0" "oo ! 0 = 0" and "k < length so" "k < length oo"
  shows "length (merged_columns so sd oo od k) = so ! k + oo ! k"
  using assms(7,8)
proof (induction k)
  case 0
  then show ?case using assms(5,6) by (simp add: merged_columns_def)
next
  case (Suc k)
  have "length (column so sd k) = so ! (k + 1) - so ! k"
    using Suc.prems assms(1,3) by (intro length_column) simp_all
  moreover have "length (column oo od k) = oo ! (k + 1) - oo ! k"
    using Suc.prems assms(2,4) by (intro length_column) simp_all
  moreover have "so ! k \<le> so ! (k + 1)" using assms(1) Suc.prems by (intro sorted_nth_mono) simp_all
  moreover have "oo ! k \<le> oo ! (k + 1)" using assms(2) Suc.prems by (intro sorted_nth_mono) simp_all
  moreover have "length (merged_columns so sd oo od k) = so ! k + oo ! k"
    using Suc by simp
  ultimately show ?case by (simp add: merged_columns_def)
qed

lemma Inst_valid:
  assumes "page_inv P" and "i < Size P"
  shows "Inst P i = Inr (column (offset P) (data P) i)"
proof -
  from assms(1) have s: "sorted (offset P)" and l: "last (offset P) = length (data P)"
    by (simp_all add: page_inv_def)
  have i: "i + 1 < length (offset P)" using assms(2) by (simp add: Size_def)
  have "offset P ! i \<le> offset P ! (i + 1)" using s i by (intro sorted_nth_mono) simp_all
  moreover have "offset P ! (i + 1) \<le> length (data P)"
    using sorted_last_bound [OF s i] l by simp
  ultimately show ?thesis using i by (simp add: Inst_def column_def)
qed

lemma PushCSC_merge:
  assumes S: "page_inv S" and Q: "page_inv Q"
    and ne: "data S \<noteq> []" "data Q \<noteq> []"
    and len: "length (offset S) = length (offset Q)"
    and fit: "length (data S) + length (data Q) < size_range"
  shows "PushCSC S Q = Inr (PushCSC_result S Q)"
proof -
  let ?so = "offset S" and ?oo = "offset Q" and ?sd = "data S" and ?od = "data Q"
  let ?m = "Size Q"
  from S have neS: "?so \<noteq> []" and zS: "?so ! 0 = 0" and sS: "sorted ?so"
    and lS: "last ?so = length ?sd" by (simp_all add: page_inv_def)
  from Q have neQ: "?oo \<noteq> []" and zQ: "?oo ! 0 = 0" and sQ: "sorted ?oo"
    and lQ: "last ?oo = length ?od" by (simp_all add: page_inv_def)
  have lenQ: "length ?oo = ?m + 1" using neQ by (cases ?oo) (simp_all add: Size_def)
  have lenS: "length ?so = ?m + 1" using len lenQ by simp
  have lastS: "?so ! ?m = length ?sd" using lS neS lenS by (simp add: last_conv_nth)
  have lastQ: "?oo ! ?m = length ?od" using lQ neQ lenQ by (simp add: last_conv_nth)
  from PushCSC_loop [OF lenS lenQ zS zQ sS sQ lS lQ fit le_refl]
  have loop: "for_each (PushCSC_column ?sd ?so ?od ?oo) [0..<?m]
       (replicate (length ?sd + length ?od) Entry_init, replicate (?m + 1) 0, 0, 1) =
     Inr (merged_columns ?so ?sd ?oo ?od ?m,
          map (\<lambda>i. ?so ! i + ?oo ! i) [0..<?m + 1], length ?sd + length ?od, ?m + 1)"
    unfolding lastS lastQ by simp
  have init: "(replicate (length ?oo) (0::nat))[0 := 0] = replicate (?m + 1) 0"
    unfolding lenQ by (simp del: replicate_Suc replicate.simps add: list_update_same_conv)
  have u: "u64 (length ?sd + length ?od) = length ?sd + length ?od"
    using fit by (rule u64_id)
  have m: "length ?oo - 1 = ?m" by (simp add: Size_def)
  show ?thesis
    unfolding PushCSC_def Let_def init u m loop PushCSC_result_def
    using ne len neQ lenQ by simp
qed

lemma page_inv_PushCSC_result:
  assumes S: "page_inv S" and Q: "page_inv Q" and len: "length (offset S) = length (offset Q)"
  shows "page_inv (PushCSC_result S Q)"
proof -
  let ?so = "offset S" and ?oo = "offset Q" and ?sd = "data S" and ?od = "data Q"
  let ?F = "map (\<lambda>i. ?so ! i + ?oo ! i) [0..<length ?oo]"
  from S have neS: "?so \<noteq> []" and zS: "?so ! 0 = 0" and sS: "sorted ?so"
    and lS: "last ?so = length ?sd" by (simp_all add: page_inv_def)
  from Q have neQ: "?oo \<noteq> []" and zQ: "?oo ! 0 = 0" and sQ: "sorted ?oo"
    and lQ: "last ?oo = length ?od" by (simp_all add: page_inv_def)
  have pos: "0 < length ?oo" using neQ by simp
  have ne: "?F \<noteq> []" using neQ by simp
  have z: "?F ! 0 = 0" using pos zS zQ by simp
  have s: "sorted ?F"
    unfolding sorted_iff_nth_mono
  proof (intro allI impI)
    fix i j assume ij: "i \<le> j" and j: "j < length ?F"
    then have "?so ! i \<le> ?so ! j" "?oo ! i \<le> ?oo ! j"
      using sS sQ len by (simp_all add: sorted_nth_mono)
    then show "?F ! i \<le> ?F ! j" using ij j by simp
  qed
  have m: "Size Q < length ?so" "Size Q < length ?oo" using pos len by (simp_all add: Size_def)
  have "last ?F = ?so ! Size Q + ?oo ! Size Q"
    using pos ne by (simp add: last_conv_nth Size_def del: map_is_Nil_conv upt_eq_Nil_conv)
  also have "\<dots> = length (merged_columns ?so ?sd ?oo ?od (Size Q))"
    using length_merged_columns [OF sS sQ lS lQ zS zQ m] by simp
  finally have l: "last ?F = length (merged_columns ?so ?sd ?oo ?od (Size Q))" .
  show ?thesis
    unfolding page_inv_def PushCSC_result_def using ne z s l by simp
qed

lemma merged_columns_split:
  assumes "i < k"
  shows "merged_columns so sd oo od k =
     merged_columns so sd oo od i @ (column so sd i @ column oo od i)
       @ concat (map (\<lambda>i. column so sd i @ column oo od i) [Suc i..<k])"
proof -
  have "[0..<k] = [0..<i] @ i # [Suc i..<k]"
    using assms by (metis le_add1 less_imp_add_positive upt_add_eq_append upt_conv_Cons zero_le
        add.left_neutral less_eq_nat.simps(1) upt_eq_Cons_conv)
  then show ?thesis by (simp add: merged_columns_def)
qed

lemma Inst_PushCSC_result:
  assumes S: "page_inv S" and Q: "page_inv Q" and len: "length (offset S) = length (offset Q)"
    and i: "i < Size Q"
  shows "Inst (PushCSC_result S Q) i =
     Inr (column (offset S) (data S) i @ column (offset Q) (data Q) i)"
proof -
  let ?so = "offset S" and ?oo = "offset Q" and ?sd = "data S" and ?od = "data Q"
  let ?R = "PushCSC_result S Q"
  from S have zS: "?so ! 0 = 0" and sS: "sorted ?so"
    and lS: "last ?so = length ?sd" by (simp_all add: page_inv_def)
  from Q have zQ: "?oo ! 0 = 0" and sQ: "sorted ?oo"
    and lQ: "last ?oo = length ?od" by (simp_all add: page_inv_def)
  have R: "page_inv ?R" using S Q len by (rule page_inv_PushCSC_result)
  have i1: "i + 1 < length ?oo" "i + 1 < length ?so" using i len by (simp_all add: Size_def)
  have sizeR: "i < Size ?R" using i by (simp add: Size_def PushCSC_result_def)
  have oi: "offset ?R ! i = ?so ! i + ?oo ! i" "offset ?R ! (i + 1) = ?so ! (i + 1) + ?oo ! (i + 1)"
    using i1 by (simp_all add: PushCSC_result_def)
  have li: "length (merged_columns ?so ?sd ?oo ?od i) = ?so ! i + ?oo ! i"
    using i1 by (intro length_merged_columns [OF sS sQ lS lQ zS zQ]) simp_all
  have lc: "length (column ?so ?sd i) = ?so ! (i + 1) - ?so ! i"
    "length (column ?oo ?od i) = ?oo ! (i + 1) - ?oo ! i"
    using i1 sS sQ lS lQ by (simp_all add: length_column)
  have mono: "?so ! i \<le> ?so ! (i + 1)" "?oo ! i \<le> ?oo ! (i + 1)"
    using sS sQ i1 by (simp_all add: sorted_nth_mono)
  have "column (offset ?R) (data ?R) i =
     take (?so ! (i + 1) + ?oo ! (i + 1) - (?so ! i + ?oo ! i))
       (drop (?so ! i + ?oo ! i) (merged_columns ?so ?sd ?oo ?od (Size Q)))"
    unfolding column_def oi by (simp add: PushCSC_result_def)
  also have "\<dots> = column ?so ?sd i @ column ?oo ?od i"
    using li lc mono by (subst merged_columns_split [OF i]) simp
  finally show ?thesis using Inst_valid [OF R sizeR] by simp
qed

text \<open>
  Claim C10. For every page \<open>self\<close> and every page \<open>other\<close> whose data array is empty,
  \<open>PushCSC(self, other)\<close> returns without an error and leaves \<open>self\<close> unchanged: data,
  offset and base_rowid. This holds whatever the lengths of the two offset arrays are,
  and also when \<open>self\<close> is empty: the offset array of \<open>other\<close> is not copied.
\<close>

theorem PushCSC_empty_batch:
  "data other = [] \<longrightarrow> PushCSC self other = Inr self"
  by (simp add: PushCSC_def)

theorem PushCSC_empty_batch_witness:
  "data \<lparr>offset = [0, 0, 0], data = [], base_rowid = 3\<rparr> = []
   \<and> PushCSC \<lparr>offset = [0], data = [], base_rowid = 0\<rparr>
        \<lparr>offset = [0, 0, 0], data = [], base_rowid = 3\<rparr> =
      Inr \<lparr>offset = [0], data = [], base_rowid = 0\<rparr>
   \<and> PushCSC \<lparr>offset = [0, 1], data = [\<lparr>index = 4, fvalue = 9\<rparr>], base_rowid = 0\<rparr>
        \<lparr>offset = [0, 0, 0], data = [], base_rowid = 3\<rparr> =
      Inr \<lparr>offset = [0, 1], data = [\<lparr>index = 4, fvalue = 9\<rparr>], base_rowid = 0\<rparr>"
  using PushCSC_empty_batch [of "\<lparr>offset = [0, 0, 0], data = [], base_rowid = 3\<rparr>"
      "\<lparr>offset = [0], data = [], base_rowid = 0\<rparr>"]
    PushCSC_empty_batch [of "\<lparr>offset = [0, 0, 0], data = [], base_rowid = 3\<rparr>"
      "\<lparr>offset = [0, 1], data = [\<lparr>index = 4, fvalue = 9\<rparr>], base_rowid = 0\<rparr>"]
  by simp

text \<open>
  Claim C1, as amended. For \<open>PushCSC(self, other)\<close>: if \<open>other\<close> has no entries, \<open>self\<close> is
  left unchanged; otherwise, if \<open>self\<close> has no entries, the data and offset arrays of
  \<open>self\<close> become copies of those of \<open>other\<close>; otherwise a difference between the lengths of
  the two offset arrays is a fatal consistency error, and when the lengths are equal
  (and both pages satisfy the page invariant, with a combined size that is a \<^verbatim>\<open>size_t\<close>
  value) the result has as many columns, and for each column \<open>i\<close> the entries of column
  \<open>i\<close> of \<open>self\<close> followed by those of column \<open>i\<close> of \<open>other\<close>.
\<close>

theorem PushCSC_cases:
  "(data other = [] \<longrightarrow> PushCSC self other = Inr self)
   \<and> (data other \<noteq> [] \<and> data self = [] \<longrightarrow>
        PushCSC self other = Inr (self\<lparr>data := data other, offset := offset other\<rparr>))
   \<and> (data other \<noteq> [] \<and> data self \<noteq> [] \<and> length (offset self) \<noteq> length (offset other) \<longrightarrow>
        (\<exists>msg. PushCSC self other = Inl (ConsistencyError msg)))
   \<and> (data other \<noteq> [] \<and> data self \<noteq> [] \<and> length (offset self) = length (offset other)
        \<and> page_inv self \<and> page_inv other
        \<and> length (data self) + length (data other) < size_range \<longrightarrow>
        (\<exists>R. PushCSC self other = Inr R
           \<and> length (offset R) = length (offset self)
           \<and> base_rowid R = base_rowid self
           \<and> (\<forall>i<Size self. \<exists>a b. Inst self i = Inr a \<and> Inst other i = Inr b
                  \<and> Inst R i = Inr (a @ b))))"
proof (intro conjI impI)
  assume "data other = []"
  then show "PushCSC self other = Inr self" by (simp add: PushCSC_def)
next
  assume "data other \<noteq> [] \<and> data self = []"
  then show "PushCSC self other = Inr (self\<lparr>data := data other, offset := offset other\<rparr>)"
    by (simp add: PushCSC_def)
next
  assume "data other \<noteq> [] \<and> data self \<noteq> [] \<and> length (offset self) \<noteq> length (offset other)"
  then show "\<exists>msg. PushCSC self other = Inl (ConsistencyError msg)"
    by (simp add: PushCSC_def)
next
  assume a: "data other \<noteq> [] \<and> data self \<noteq> [] \<and> length (offset self) = length (offset other)
        \<and> page_inv self \<and> page_inv other
        \<and> length (data self) + length (data other) < size_range"
  then have S: "page_inv self" and Q: "page_inv other"
    and len: "length (offset self) = length (offset other)" by simp_all
  let ?R = "PushCSC_result self other"
  have run: "PushCSC self other = Inr ?R" using a by (intro PushCSC_merge) simp_all
  have sz: "Size self = Size other" using len by (simp add: Size_def)
  have cols: "\<exists>a b. Inst self i = Inr a \<and> Inst other i = Inr b \<and> Inst ?R i = Inr (a @ b)"
    if "i < Size self" for i
    using that Inst_valid [OF S, of i] Inst_valid [OF Q, of i] Inst_PushCSC_result [OF S Q len, of i]
    by (simp add: sz)
  show "\<exists>R. PushCSC self other = Inr R
           \<and> length (offset R) = length (offset self)
           \<and> base_rowid R = base_rowid self
           \<and> (\<forall>i<Size self. \<exists>a b. Inst self i = Inr a \<and> Inst other i = Inr b
                  \<and> Inst R i = Inr (a @ b))"
    using run cols len by (intro exI [of _ ?R]) (simp add: PushCSC_result_def)
qed

theorem PushCSC_cases_witness:
  "data \<lparr>offset = [0, 0, 0], data = [], base_rowid = 3\<rparr> = []
   \<and> PushCSC \<lparr>offset = [0, 1], data = [\<lparr>index = 4, fvalue = 9\<rparr>], base_rowid = 0\<rparr>
        \<lparr>offset = [0, 0, 0], data = [], base_rowid = 3\<rparr> =
      Inr \<lparr>offset = [0, 1], data = [\<lparr>index = 4, fvalue = 9\<rparr>], base_rowid = 0\<rparr>
   \<and> data \<lparr>offset = [0, 1], data = [\<lparr>index = 4, fvalue = 9\<rparr>], base_rowid = 5\<rparr> \<noteq> []
   \<and> data \<lparr>offset = [0], data = [], base_rowid = 0\<rparr> = []
   \<and> PushCSC \<lparr>offset = [0], data = [], base_rowid = 0\<rparr>
        \<lparr>offset = [0, 1], data = [\<lparr>index = 4, fvalue = 9\<rparr>], base_rowid = 5\<rparr> =
      Inr \<lparr>offset = [0, 1], data = [\<lparr>index = 4, fvalue = 9\<rparr>], base_rowid = 0\<rparr>
   \<and> length (offset \<lparr>offset = [0, 1], data = [\<lparr>index = 4, fvalue = 9\<rparr>], base_rowid = 5\<rparr>)
        \<noteq> length (offset \<lparr>offset = [0, 1, 1], data = [\<lparr>index = 2, fvalue = 8\<rparr>], base_rowid = 0\<rparr>)
   \<and> (\<exists>msg. PushCSC \<lparr>offset = [0, 1, 1], data = [\<lparr>index = 2, fvalue = 8\<rparr>], base_rowid = 0\<rparr>
        \<lparr>offset = [0, 1], data = [\<lparr>index = 4, fvalue = 9\<rparr>], base_rowid = 5\<rparr> =
      Inl (ConsistencyError msg))
   \<and> page_inv \<lparr>offset = [0, 1, 1], data = [\<lparr>index = 2, fvalue = 8\<rparr>], base_rowid = 0\<rparr>
   \<and> page_inv \<lparr>offset = [0, 0, 1], data = [\<lparr>index = 6, fvalue = 7\<rparr>], base_rowid = 0\<rparr>
   \<and> (2::nat) < size_range
   \<and> (\<exists>R. PushCSC \<lparr>offset = [0, 1, 1], data = [\<lparr>index = 2, fvalue = 8\<rparr>], base_rowid = 0\<rparr>
        \<lparr>offset = [0, 0, 1], data = [\<lparr>index = 6, fvalue = 7\<rparr>], base_rowid = 0\<rparr> = Inr R
      \<and> length (offset R) = 3 \<and> base_rowid R = 0)"
proof -
  let ?e = "\<lparr>offset = [0, 0, 0], data = [], base_rowid = 3\<rparr>"
  let ?z = "\<lparr>offset = [0], data = [], base_rowid = 0\<rparr>"
  let ?a = "\<lparr>offset = [0, 1], data = [\<lparr>index = 4, fvalue = 9\<rparr>], base_rowid = 0\<rparr>"
  let ?a5 = "\<lparr>offset = [0, 1], data = [\<lparr>index = 4, fvalue = 9\<rparr>], base_rowid = 5\<rparr>"
  let ?b = "\<lparr>offset = [0, 1, 1], data = [\<lparr>index = 2, fvalue = 8\<rparr>], base_rowid = 0\<rparr>"
  let ?c = "\<lparr>offset = [0, 0, 1], data = [\<lparr>index = 6, fvalue = 7\<rparr>], base_rowid = 0\<rparr>"
  have two: "(2::nat) < size_range" by (simp add: size_range_def)
  have c1: "PushCSC ?a ?e = Inr ?a"
    using PushCSC_cases [of ?e ?a, THEN conjunct1] by simp
  have c2: "PushCSC ?z ?a5 = Inr \<lparr>offset = [0, 1], data = [\<lparr>index = 4, fvalue = 9\<rparr>], base_rowid = 0\<rparr>"
    using PushCSC_cases [of ?a5 ?z, THEN conjunct2, THEN conjunct1] by simp
  have c3: "\<exists>msg. PushCSC ?b ?a5 = Inl (ConsistencyError msg)"
    using PushCSC_cases [of ?a5 ?b, THEN conjunct2, THEN conjunct2, THEN conjunct1] by simp
  have pb: "page_inv ?b" and pc: "page_inv ?c" by (simp_all add: page_inv_def)
  have h: "data ?c \<noteq> [] \<and> data ?b \<noteq> [] \<and> length (offset ?b) = length (offset ?c)
        \<and> page_inv ?b \<and> page_inv ?c \<and> length (data ?b) + length (data ?c) < size_range"
    using pb pc two by simp
  from PushCSC_cases [of ?c ?b, THEN conjunct2, THEN conjunct2, THEN conjunct2, rule_format, OF h]
  obtain R where "PushCSC ?b ?c = Inr R" "length (offset R) = length (offset ?b)"
    "base_rowid R = base_rowid ?b" by blast
  then have c4: "\<exists>R. PushCSC ?b ?c = Inr R \<and> length (offset R) = 3 \<and> base_rowid R = 0"
    by (intro exI [of _ R]) simp
  show ?thesis using c1 c2 c3 c4 pb pc two by simp
qed

text \<open>
  Claim C1 as stated does not hold. A page with one entry and one column merged with a
  page of two columns and no entries is left as it is, without an error, although the
  column counts differ; and an empty page merged with that page keeps its own offset
  array \<open>[0]\<close> instead of becoming a copy.
\<close>

theorem PushCSC_mismatch_counterexample:
  "PushCSC \<lparr>offset = [0, 1], data = [\<lparr>index = 4, fvalue = 9\<rparr>], base_rowid = 0\<rparr>
        \<lparr>offset = [0, 0, 0], data = [], base_rowid = 0\<rparr> =
      Inr \<lparr>offset = [0, 1], data = [\<lparr>index = 4, fvalue = 9\<rparr>], base_rowid = 0\<rparr>
   \<and> PushCSC \<lparr>offset = [0], data = [], base_rowid = 0\<rparr>
        \<lparr>offset = [0, 0, 0], data = [], base_rowid = 0\<rparr> =
      Inr \<lparr>offset = [0], data = [], base_rowid = 0\<rparr>"
  by (simp add: PushCSC_def)

section \<open>Properties of SparsePage::Push of a row block\<close>

lemma sub64_u64:
  assumes "c \<le> x" and "c < size_range" and "x - c < size_range"
  shows "sub64 (u64 x) c = x - c"
proof -
  have c: "c mod size_range = c" using assms(2) by (rule mod_less)
  have "(x mod size_range + (size_range - c)) mod size_range = (x + (size_range - c)) mod size_range"
    by (rule mod_add_left_eq)
  also have "x + (size_range - c) = (x - c) + size_range" using assms(1,2) by simp
  also have "((x - c) + size_range) mod size_range = (x - c) mod size_range" by (rule mod_add_self2)
  also have "\<dots> = x - c" using assms(3) by (rule mod_less)
  finally have "(x mod size_range + (size_range - c)) mod size_range = x - c" .
  moreover have "x mod size_range + size_range - c = x mod size_range + (size_range - c)"
    using assms(2) by simp
  ultimately show ?thesis by (simp only: sub64_def u64_def c)
qed

lemma Push_block_offsets_loop:
  assumes ov: "ov \<noteq> []"
    and s: "sorted boff" and n: "n < length boff"
    and fit: "last boff < size_range" "last ov + (boff ! n - boff ! 0) < size_range"
    and k: "k \<le> n"
  shows "for_each (Push_block_offset boff) [0..<k] ov =
     Inr (ov @ map (\<lambda>i. last ov + (boff ! (i + 1) - boff ! 0)) [0..<k])"
  using k
proof (induction k)
  case 0
  then show ?case by simp
next
  case (Suc k)
  have k: "k < n" using Suc.prems by simp
  let ?cur = "ov @ map (\<lambda>i. last ov + (boff ! (i + 1) - boff ! 0)) [0..<k]"
  have m0: "boff ! 0 \<le> boff ! k" using s k n by (intro sorted_nth_mono) simp_all
  have m1: "boff ! k \<le> boff ! (k + 1)" using s k n by (intro sorted_nth_mono) simp_all
  have m2: "boff ! (k + 1) \<le> boff ! n" using s k n by (intro sorted_nth_mono) simp_all
  have last_cur: "last ?cur = last ov + (boff ! k - boff ! 0)"
    using ov by (cases k) (simp_all add: last_append)
  have bk: "boff ! k < size_range"
    using sorted_last_bound [OF s, of k] k n fit(1) by simp
  have "sub64 (u64 (last ?cur + boff ! (k + 1))) (boff ! k)
      = last ?cur + boff ! (k + 1) - boff ! k"
    using m0 m1 m2 fit(2) bk unfolding last_cur by (intro sub64_u64) simp_all
  also have "\<dots> = last ov + (boff ! (k + 1) - boff ! 0)"
    unfolding last_cur using m0 m1 by simp
  finally have v: "sub64 (u64 (last ?cur + boff ! (k + 1))) (boff ! k)
      = last ov + (boff ! (k + 1) - boff ! 0)" .
  have "Push_block_offset boff k ?cur =
      Inr (?cur @ [last ov + (boff ! (k + 1) - boff ! 0)])"
    using k n ov unfolding Push_block_offset_def v by simp
  then show ?case using Suc.IH k by (simp add: for_each_append)
qed

lemma Push_block_entries_loop:
  assumes "\<forall>i\<in>set is. i < length ix"
    and "case bv of None \<Rightarrow> True | Some vs \<Rightarrow> \<forall>i\<in>set is. i < length vs"
  shows "for_each (Push_block_entry ix bv) is dv =
     Inr (dv @ map (\<lambda>i. \<lparr>index = ix ! i,
        fvalue = (case bv of None \<Rightarrow> float_one | Some vs \<Rightarrow> vs ! i)\<rparr>) is)"
  using assms
proof (induction "is" arbitrary: dv)
  case Nil
  then show ?case by simp
next
  case (Cons i "is")
  have "Push_block_entry ix bv i dv = Inr (dv @ [\<lparr>index = ix ! i,
        fvalue = (case bv of None \<Rightarrow> float_one | Some vs \<Rightarrow> vs ! i)\<rparr>])"
    using Cons.prems by (cases bv) (simp_all add: Push_block_entry_def)
  moreover have "for_each (Push_block_entry ix bv) is (dv @ [\<lparr>index = ix ! i,
        fvalue = (case bv of None \<Rightarrow> float_one | Some vs \<Rightarrow> vs ! i)\<rparr>]) =
     Inr ((dv @ [\<lparr>index = ix ! i,
        fvalue = (case bv of None \<Rightarrow> float_one | Some vs \<Rightarrow> vs ! i)\<rparr>]) @ map (\<lambda>i. \<lparr>index = ix ! i,
        fvalue = (case bv of None \<Rightarrow> float_one | Some vs \<Rightarrow> vs ! i)\<rparr>) is)"
    using Cons.prems by (intro Cons.IH) (auto split: option.splits)
  ultimately show ?case by simp
qed

lemma page_inv_Push_block_result:
  assumes P: "page_inv P" and b: "block_wf b"
  shows "page_inv (Push_block_result P b)"
proof -
  let ?boff = "block_offset b" and ?n = "block_size b"
  let ?app = "map (\<lambda>i. length (data P) + (?boff ! (i + 1) - ?boff ! 0)) [0..<?n]"
  from P have neP: "offset P \<noteq> []" and zP: "offset P ! 0 = 0" and sP: "sorted (offset P)"
    and lP: "last (offset P) = length (data P)" by (simp_all add: page_inv_def)
  from b have len: "length ?boff = ?n + 1" and s: "sorted ?boff" by (simp_all add: block_wf_def)
  have z: "(offset P @ ?app) ! 0 = 0" using neP zP by (simp add: nth_append)
  have sapp: "sorted ?app"
    unfolding sorted_iff_nth_mono
  proof (intro allI impI)
    fix i j assume ij: "i \<le> j" and j: "j < length ?app"
    then have "?boff ! (i + 1) \<le> ?boff ! (j + 1)"
      using s len by (intro sorted_nth_mono) simp_all
    then show "?app ! i \<le> ?app ! j" using ij j by simp
  qed
  have "x \<le> y" if "x \<in> set (offset P)" "y \<in> set ?app" for x y
  proof -
    have "x \<le> length (data P)" using P that(1) by (rule page_inv_offset_le)
    moreover have "length (data P) \<le> y" using that(2) by auto
    ultimately show ?thesis by simp
  qed
  then have srt: "sorted (offset P @ ?app)" using sP sapp by (simp add: sorted_append)
  have mono: "?boff ! 0 \<le> ?boff ! ?n" using s len by (intro sorted_nth_mono) simp_all
  have l: "last (offset P @ ?app) = length (data P) + (?boff ! ?n - ?boff ! 0)"
  proof (cases ?n)
    case 0
    then show ?thesis using lP by simp
  next
    case (Suc m)
    then show ?thesis by (simp add: last_append)
  qed
  show ?thesis
    unfolding page_inv_def Push_block_result_def using neP z srt l by simp
qed

lemma Push_block_valid:
  assumes P: "page_inv P" and b: "block_wf b"
    and fit: "last (block_offset b) < size_range"
      "length (data P) + (last (block_offset b) - block_offset b ! 0) < size_range"
  shows "Push_block P b = Inr (Push_block_result P b)"
proof -
  let ?boff = "block_offset b" and ?n = "block_size b"
  from P have neP: "offset P \<noteq> []" and lP: "last (offset P) = length (data P)"
    by (simp_all add: page_inv_def)
  from b have len: "length ?boff = ?n + 1" and s: "sorted ?boff" by (simp_all add: block_wf_def)
  from b obtain ix where ix: "block_index b = Some ix" "last ?boff \<le> length ix"
    by (auto simp: block_wf_def split: option.splits)
  have vs: "case block_value b of None \<Rightarrow> True | Some vs \<Rightarrow> last ?boff \<le> length vs"
    using b by (simp add: block_wf_def)
  have lastb: "last ?boff = ?boff ! ?n" using len by (cases ?boff rule: rev_cases) (simp_all add: nth_append)
  have n: "?n < length ?boff" using len by simp
  have offs: "for_each (Push_block_offset ?boff) [0..<?n] (offset P) =
     Inr (offset P @ map (\<lambda>i. length (data P) + (?boff ! (i + 1) - ?boff ! 0)) [0..<?n])"
    using Push_block_offsets_loop [OF neP s n fit(1) _ le_refl] fit(2)
    unfolding lP lastb by simp
  have ents: "for_each (Push_block_entry ix (block_value b)) [?boff ! 0..<?boff ! ?n] (data P) =
     Inr (data P @ map (\<lambda>i. \<lparr>index = ix ! i,
        fvalue = (case block_value b of None \<Rightarrow> float_one | Some vs \<Rightarrow> vs ! i)\<rparr>)
        [?boff ! 0..<?boff ! ?n])"
    using ix(2) vs unfolding lastb
    by (intro Push_block_entries_loop) (auto split: option.splits)
  have R: "page_inv (Push_block_result P b)" using P b by (rule page_inv_Push_block_result)
  then have chk: "last (offset (Push_block_result P b)) = length (data (Push_block_result P b))"
    "offset (Push_block_result P b) \<noteq> []" by (simp_all add: page_inv_def)
  show ?thesis
    using chk n unfolding Push_block_def ix(1) option.case offs ents sum.case Push_block_result_def
    by (simp add: ix(1))
qed

section \<open>Properties of SparsePage::GetTranspose\<close>

lemma counters_update:
  assumes "t < T" and "k < K"
  shows "(counters T K c)[t := (counters T K c ! t)[k := v]]
     = counters T K (\<lambda>t' g. if t' = t \<and> g = k then v else c t' g)"
proof (rule nth_equalityI)
  show "length ((counters T K c)[t := (counters T K c ! t)[k := v]])
      = length (counters T K (\<lambda>t' g. if t' = t \<and> g = k then v else c t' g))"
    by (simp add: counters_def)
next
  fix i assume "i < length ((counters T K c)[t := (counters T K c ! t)[k := v]])"
  then have i: "i < T" by (simp add: counters_def)
  show "(counters T K c)[t := (counters T K c ! t)[k := v]] ! i
      = counters T K (\<lambda>t' g. if t' = t \<and> g = k then v else c t' g) ! i"
  proof (cases "i = t")
    case True
    have "(map (c t) [0..<K])[k := v] = map (\<lambda>g. if g = k then v else c t g) [0..<K]"
      using assms(2) by (intro nth_equalityI) (simp_all add: nth_list_update)
    then show ?thesis using True i by (simp add: counters_def)
  next
    case False
    then show ?thesis using i by (simp add: counters_def)
  qed
qed

lemma counters_nth: "t < T \<Longrightarrow> g < K \<Longrightarrow> counters T K c ! t ! g = c t g"
  by (simp add: counters_def)

lemma length_counters [simp]: "length (counters T K c) = T"
  by (simp add: counters_def)

lemma length_counters_nth [simp]: "t < T \<Longrightarrow> length (counters T K c ! t) = K"
  by (simp add: counters_def)

lemma AddBudget_counters:
  assumes "t < T" and "k < K" and "thread_rptr b = counters T K c"
  shows "AddBudget k t b =
     Inr (b\<lparr>thread_rptr := counters T K (\<lambda>t' g. if t' = t \<and> g = k then Suc (c t k) else c t' g)\<rparr>)"
  using assms by (simp add: AddBudget_def counters_update counters_nth)

lemma cnt_snoc:
  "cnt (ps @ [(k, t, v)]) t' g = (if t' = t \<and> g = k then Suc (cnt ps t k) else cnt ps t' g)"
  by (auto simp: cnt_def)

lemma count_pass:
  assumes "\<forall>x\<in>set ps. fst x < K \<and> fst (snd x) < T"
    and "thread_rptr b = counters T K (\<lambda>t g. cnt done t g)"
  shows "for_each (\<lambda>x. AddBudget (fst x) (fst (snd x))) ps b =
     Inr (b\<lparr>thread_rptr := counters T K (\<lambda>t g. cnt (done @ ps) t g)\<rparr>)"
  using assms
proof (induction ps arbitrary: b "done")
  case Nil
  then show ?case by simp
next
  case (Cons x ps)
  obtain k t v where x: "x = (k, t, v)" by (cases x) auto
  have kt: "t < T" "k < K" using Cons.prems(1) x by simp_all
  let ?b' = "b\<lparr>thread_rptr := counters T K (\<lambda>t g. cnt (done @ [x]) t g)\<rparr>"
  have step: "AddBudget k t b = Inr ?b'"
    using AddBudget_counters [OF kt Cons.prems(2)] by (simp add: x cnt_snoc)
  have "for_each (\<lambda>x. AddBudget (fst x) (fst (snd x))) ps ?b' =
     Inr (?b'\<lparr>thread_rptr := counters T K (\<lambda>t g. cnt ((done @ [x]) @ ps) t g)\<rparr>)"
    using Cons.prems(1) by (intro Cons.IH) simp_all
  then show ?case using step by (simp add: x)
qed

lemma tsum_Suc: "tsum ps (Suc t) g = tsum ps t g + cnt ps t g"
  by (simp add: tsum_def)

lemma tsum_mono: "t \<le> t' \<Longrightarrow> tsum ps t g \<le> tsum ps t' g"
  by (induction t' rule: dec_induct) (simp_all add: tsum_Suc)

lemma gstart_Suc: "gstart ps T (Suc g) = gstart ps T g + tsum ps T g"
  by (simp add: gstart_def)

lemma gstart_mono: "g \<le> g' \<Longrightarrow> gstart ps T g \<le> gstart ps T g'"
  by (induction g' rule: dec_induct) (simp_all add: gstart_Suc)

lemma gstart_0 [simp]: "gstart ps T 0 = 0"
  by (simp add: gstart_def)

lemma bucket_end:
  assumes "t < T"
  shows "tstart ps T t g + cnt ps t g \<le> gstart ps T (Suc g)"
proof -
  have "tsum ps (Suc t) g \<le> tsum ps T g" using assms by (intro tsum_mono) simp
  then show ?thesis by (simp add: tstart_def gstart_Suc tsum_Suc)
qed

lemma bucket_below:
  assumes "t < T" and "g < g' \<or> (g = g' \<and> t < t')"
  shows "tstart ps T t g + cnt ps t g \<le> tstart ps T t' g'"
  using assms(2)
proof
  assume "g < g'"
  then have "gstart ps T (Suc g) \<le> gstart ps T g'" by (intro gstart_mono) simp
  then show ?thesis using bucket_end [OF assms(1), of ps g] by (simp add: tstart_def)
next
  assume a: "g = g' \<and> t < t'"
  then have "tsum ps (Suc t) g \<le> tsum ps t' g" by (intro tsum_mono) simp
  then show ?thesis using a by (simp add: tstart_def tsum_Suc)
qed

lemma bucket_disjoint:
  assumes "t < T" "t' < T" and "(g, t) \<noteq> (g', t')"
    and "j < cnt ps t g" "j' < cnt ps t' g'"
  shows "tstart ps T t g + j \<noteq> tstart ps T t' g' + j'"
proof -
  consider "g < g' \<or> (g = g' \<and> t < t')" | "g' < g \<or> (g' = g \<and> t' < t)"
    using assms(3) by force
  then show ?thesis
  proof cases
    case 1
    from bucket_below [OF assms(1) this, of ps] assms(4) show ?thesis by simp
  next
    case 2
    from bucket_below [OF assms(2) this, of ps] assms(5) show ?thesis by simp
  qed
qed

lemma bucket_inside:
  assumes "t < T" "g < K" "j < cnt ps t g"
  shows "tstart ps T t g + j < gstart ps T K"
proof -
  have "tstart ps T t g + cnt ps t g \<le> gstart ps T (Suc g)" using assms(1) by (rule bucket_end)
  also have "\<dots> \<le> gstart ps T K" using assms(2) by (intro gstart_mono) simp
  finally show ?thesis using assms(3) by simp
qed

lemma InitStorage_counters:
  assumes "thread_rptr b = counters T K (\<lambda>t g. cnt ps t g)" and "num_groups b = K"
  shows "InitStorage b =
     b\<lparr>rptr := map (gstart ps T) [0..<K + 1],
       group_data := replicate (gstart ps T K) Entry_init,
       thread_rptr := counters T K (\<lambda>t g. tstart ps T t g)\<rparr>"
proof -
  have ts: "sum_list (map (\<lambda>t'. counters T K (cnt ps) ! t' ! g) [0..<t]) = tsum ps t g"
    if "t \<le> T" "g < K" for t g
    unfolding tsum_def using that by (intro arg_cong [where f = sum_list] map_cong) (simp_all add: counters_nth)
  have gs: "sum_list (map (\<lambda>g. sum_list (map (\<lambda>t. counters T K (cnt ps) ! t ! g) [0..<T])) [0..<g])
      = gstart ps T g" if "g \<le> K" for g
    unfolding gstart_def using that ts [OF le_refl]
    by (intro arg_cong [where f = sum_list] map_cong) simp_all
  have r: "map (\<lambda>g. sum_list (map (\<lambda>g. sum_list (map (\<lambda>t. counters T K (cnt ps) ! t ! g) [0..<T])) [0..<g]))
      [0..<K + 1] = map (gstart ps T) [0..<K + 1]"
  proof (intro map_cong refl)
    fix x assume "x \<in> set [0..<K + 1]"
    then have "x \<le> K" by auto
    then show "sum_list (map (\<lambda>g. sum_list (map (\<lambda>t. counters T K (cnt ps) ! t ! g) [0..<T])) [0..<x])
      = gstart ps T x" by (rule gs)
  qed
  have c: "map (\<lambda>t. map (\<lambda>g. sum_list (map (\<lambda>g. sum_list (map (\<lambda>t. counters T K (cnt ps) ! t ! g) [0..<T])) [0..<g])
          + sum_list (map (\<lambda>t'. counters T K (cnt ps) ! t' ! g) [0..<t])) [0..<K]) [0..<T]
      = counters T K (\<lambda>t g. tstart ps T t g)"
  proof -
    have "map (\<lambda>t. map (\<lambda>g. sum_list (map (\<lambda>g. sum_list (map (\<lambda>t. counters T K (cnt ps) ! t ! g) [0..<T])) [0..<g])
          + sum_list (map (\<lambda>t'. counters T K (cnt ps) ! t' ! g) [0..<t])) [0..<K]) [0..<T]
      = map (\<lambda>t. map (\<lambda>g. tstart ps T t g) [0..<K]) [0..<T]"
    proof (intro map_cong refl)
      fix t g assume "t \<in> set [0..<T]" "g \<in> set [0..<K]"
      then have "t \<le> T" "g < K" "g \<le> K" by auto
      then show "sum_list (map (\<lambda>g. sum_list (map (\<lambda>t. counters T K (cnt ps) ! t ! g) [0..<T])) [0..<g])
          + sum_list (map (\<lambda>t'. counters T K (cnt ps) ! t' ! g) [0..<t]) = tstart ps T t g"
        by (simp only: gs ts tstart_def)
    qed
    then show ?thesis by (simp only: counters_def)
  qed
  show ?thesis
    unfolding InitStorage_def Let_def assms length_counters r c gs [OF le_refl] ..
qed

lemma counters_cong:
  assumes "\<And>t g. t < T \<Longrightarrow> g < K \<Longrightarrow> c t g = c' t g"
  shows "counters T K c = counters T K c'"
  unfolding counters_def using assms by (intro map_cong refl) simp_all

lemma length_vals: "length (vals ps t g) = cnt ps t g"
  by (simp add: vals_def cnt_def)

lemma vals_append: "vals (xs @ ys) t g = vals xs t g @ vals ys t g"
  by (simp add: vals_def)

lemma cnt_append: "cnt (xs @ ys) t g = cnt xs t g + cnt ys t g"
  by (simp add: cnt_def)

lemma cnt_Cons:
  "cnt ((k, t, v) # xs) t' g = (if t' = t \<and> g = k then Suc (cnt xs t' g) else cnt xs t' g)"
  by (auto simp: cnt_def)

lemma vals_Cons_same: "vals ((k, t, v) # xs) t k = v # vals xs t k"
  by (simp add: vals_def)

lemma Push_group_counters:
  assumes "t < T" and "k < K" and "thread_rptr b = counters T K c"
    and "c t k < length (group_data b)"
  shows "Push_group k v t b =
     Inr (b\<lparr>group_data := (group_data b)[c t k := v],
          thread_rptr := counters T K (\<lambda>t' g. if t' = t \<and> g = k then Suc (c t k) else c t' g)\<rparr>)"
  using assms by (simp add: Push_group_def counters_update counters_nth Let_def)

lemma fill_pass:
  assumes "ps = dn @ rest"
    and "\<forall>x\<in>set ps. fst x < K \<and> fst (snd x) < T"
    and "thread_rptr b = counters T K (\<lambda>t g. tstart ps T t g + cnt dn t g)"
    and "length (group_data b) = gstart ps T K"
  shows "\<exists>D'. for_each (\<lambda>x. Push_group (fst x) (snd (snd x)) (fst (snd x))) rest b =
        Inr (b\<lparr>group_data := D',
               thread_rptr := counters T K (\<lambda>t g. tstart ps T t g + cnt ps t g)\<rparr>)
      \<and> length D' = gstart ps T K
      \<and> (\<forall>g t j. t < T \<and> cnt dn t g \<le> j \<and> j < cnt ps t g \<longrightarrow>
            D' ! (tstart ps T t g + j) = vals ps t g ! j)
      \<and> (\<forall>p. (\<forall>g t. \<not> in_range ps dn T p g t) \<longrightarrow> D' ! p = group_data b ! p)"
  using assms
proof (induction rest arbitrary: dn b)
  case Nil
  then have "ps = dn" by simp
  then show ?case
    using Nil.prems(3,4) by (intro exI [of _ "group_data b"]) auto
next
  case (Cons x rest)
  obtain k t v where x: "x = (k, t, v)" by (cases x) auto
  have ps: "ps = dn @ (k, t, v) # rest" using Cons.prems(1) x by simp
  have kt: "t < T" "k < K" using Cons.prems(2) ps by simp_all
  let ?rp = "tstart ps T t k + cnt dn t k"
  let ?D = "group_data b"
  have lt: "cnt dn t k < cnt ps t k" unfolding ps by (simp add: cnt_append cnt_Cons)
  have rp: "?rp < length ?D"
    using bucket_inside [OF kt lt] Cons.prems(4) by simp
  let ?dn' = "dn @ [x]"
  let ?b1 = "b\<lparr>group_data := ?D[?rp := v],
          thread_rptr := counters T K (\<lambda>t' g. tstart ps T t' g + cnt ?dn' t' g)\<rparr>"
  have cc: "counters T K (\<lambda>t' g. if t' = t \<and> g = k then Suc ?rp else tstart ps T t' g + cnt dn t' g)
      = counters T K (\<lambda>t' g. tstart ps T t' g + cnt ?dn' t' g)"
    by (intro counters_cong) (simp add: x cnt_snoc)
  have step: "Push_group k v t b = Inr ?b1"
    using Push_group_counters [OF kt Cons.prems(3), of v] rp unfolding cc by simp
  have "\<exists>D'. for_each (\<lambda>x. Push_group (fst x) (snd (snd x)) (fst (snd x))) rest ?b1 =
        Inr (?b1\<lparr>group_data := D',
               thread_rptr := counters T K (\<lambda>t g. tstart ps T t g + cnt ps t g)\<rparr>)
      \<and> length D' = gstart ps T K
      \<and> (\<forall>g t j. t < T \<and> cnt ?dn' t g \<le> j \<and> j < cnt ps t g \<longrightarrow>
            D' ! (tstart ps T t g + j) = vals ps t g ! j)
      \<and> (\<forall>p. (\<forall>g t. \<not> in_range ps ?dn' T p g t) \<longrightarrow> D' ! p = group_data ?b1 ! p)"
    using Cons.prems ps x by (intro Cons.IH) simp_all
  then obtain D' where run: "for_each (\<lambda>x. Push_group (fst x) (snd (snd x)) (fst (snd x))) rest ?b1 =
        Inr (?b1\<lparr>group_data := D',
               thread_rptr := counters T K (\<lambda>t g. tstart ps T t g + cnt ps t g)\<rparr>)"
    and len: "length D' = gstart ps T K"
    and A: "\<And>g t j. t < T \<Longrightarrow> cnt ?dn' t g \<le> j \<Longrightarrow> j < cnt ps t g \<Longrightarrow>
            D' ! (tstart ps T t g + j) = vals ps t g ! j"
    and B: "\<And>p. (\<forall>g t. \<not> in_range ps ?dn' T p g t) \<Longrightarrow> D' ! p = (?D[?rp := v]) ! p"
    by auto
  have not_later: "\<not> in_range ps ?dn' T ?rp g t'" for g t'
  proof
    assume "in_range ps ?dn' T ?rp g t'"
    then obtain j where j: "t' < T" "cnt ?dn' t' g \<le> j" "j < cnt ps t' g"
      "?rp = tstart ps T t' g + j" by (auto simp: in_range_def)
    show False
    proof (cases "(k, t) = (g, t')")
      case True
      then show ?thesis using j(2,4) by (simp add: x cnt_snoc)
    next
      case False
      from bucket_disjoint [OF kt(1) j(1) False lt j(3)] j(4) show ?thesis by simp
    qed
  qed
  have at_rp: "D' ! ?rp = v" using B [OF allI [OF allI [OF not_later]]] rp by simp
  have val_rp: "vals ps t k ! cnt dn t k = v"
    unfolding ps vals_append vals_Cons_same by (simp add: nth_append length_vals)
  have A0: "D' ! (tstart ps T t' g + j) = vals ps t' g ! j"
    if "t' < T" "cnt dn t' g \<le> j" "j < cnt ps t' g" for g t' j
  proof (cases "t' = t \<and> g = k \<and> j = cnt dn t k")
    case True
    then show ?thesis using at_rp val_rp by simp
  next
    case False
    then have "cnt ?dn' t' g \<le> j" using that(2) by (auto simp: x cnt_snoc)
    then show ?thesis using that by (intro A)
  qed
  have B0: "D' ! p = ?D ! p" if "\<forall>g t. \<not> in_range ps dn T p g t" for p
  proof -
    have "\<not> in_range ps ?dn' T p g t'" for g t'
    proof
      assume "in_range ps ?dn' T p g t'"
      then obtain j where j: "t' < T" "cnt ?dn' t' g \<le> j" "j < cnt ps t' g"
        "p = tstart ps T t' g + j" by (auto simp: in_range_def)
      have "cnt dn t' g \<le> cnt ?dn' t' g" by (simp add: cnt_append)
      then have "in_range ps dn T p g t'" using j by (auto simp: in_range_def)
      then show False using that by simp
    qed
    then have "D' ! p = (?D[?rp := v]) ! p" by (intro B) simp
    moreover have "p \<noteq> ?rp"
    proof
      assume "p = ?rp"
      then have "in_range ps dn T p k t" using kt(1) lt by (auto simp: in_range_def)
      then show False using that by simp
    qed
    ultimately show ?thesis by simp
  qed
  have "for_each (\<lambda>x. Push_group (fst x) (snd (snd x)) (fst (snd x))) (x # rest) b =
        Inr (b\<lparr>group_data := D',
               thread_rptr := counters T K (\<lambda>t g. tstart ps T t g + cnt ps t g)\<rparr>)"
    using step run by (simp add: x)
  then show ?case using len A0 B0 by (intro exI [of _ D']) simp
qed

lemma for_each_map: "for_each body (map f xs) s = for_each (\<lambda>x. body (f x)) xs s"
  by (induction xs arbitrary: s) (simp_all split: sum.splits)

lemma for_each_rows:
  assumes "page_inv P" and "\<forall>i\<in>set rows. i < Size P"
  shows "for_each (for_each_entry P body) rows s =
     for_each (\<lambda>x. body (fst x) (snd x))
       (concat (map (\<lambda>i. map (Pair i) (column (offset P) (data P) i)) rows)) s"
  using assms(2)
proof (induction rows arbitrary: s)
  case Nil
  then show ?case by simp
next
  case (Cons i rows)
  have "for_each_entry P body i s = for_each (body i) (column (offset P) (data P) i) s"
    using Inst_valid [OF assms(1), of i] Cons.prems by (simp add: for_each_entry_def)
  also have "\<dots> = for_each (\<lambda>x. body (fst x) (snd x)) (map (Pair i) (column (offset P) (data P) i)) s"
    by (simp add: for_each_map)
  finally have row: "for_each_entry P body i s =
     for_each (\<lambda>x. body (fst x) (snd x)) (map (Pair i) (column (offset P) (data P) i)) s" .
  show ?case
    using Cons.IH Cons.prems by (simp add: for_each_append row split: sum.splits)
qed

lemma pushes_in_range:
  assumes "transposable rt P nc" and "x \<in> set (pushes rt P)"
  shows "fst x < nat nc \<and> fst (snd x) < omp_get_max_threads rt"
proof -
  from assms(2) obtain i e where ie: "i < Size P" "e \<in> set (column (offset P) (data P) i)"
    and x: "x = (unat (index e), omp_get_thread_num rt i,
       \<lparr>index = of_nat (u64 (base_rowid P + i)), fvalue = fvalue e\<rparr>)"
    by (auto simp: pushes_def entries_of_def)
  have "int (unat (index e)) < nc" and t: "omp_get_thread_num rt i < omp_get_max_threads rt"
    using assms(1) ie unfolding transposable_def by blast+
  then have "unat (index e) < nat nc" by (simp only: zless_nat_eq_int_zless)
  then show ?thesis using t unfolding x by simp
qed

lemma GetTranspose_run:
  assumes tr: "transposable rt P nc"
  shows "\<exists>D. GetTranspose rt P nc =
        Inr (SparsePage_init\<lparr>offset := map (gstart (pushes rt P) (omp_get_max_threads rt)) [0..<nat nc + 1],
              data := D\<rparr>)
      \<and> length D = gstart (pushes rt P) (omp_get_max_threads rt) (nat nc)
      \<and> (\<forall>g t j. t < omp_get_max_threads rt \<and> j < cnt (pushes rt P) t g \<longrightarrow>
            D ! (tstart (pushes rt P) (omp_get_max_threads rt) t g + j) = vals (pushes rt P) t g ! j)"
proof -
  let ?T = "omp_get_max_threads rt" and ?K = "nat nc" and ?ps = "pushes rt P"
  let ?b0 = "\<lparr>num_groups = 0, rptr = offset SparsePage_init,
                      group_data = data SparsePage_init, thread_rptr = []\<rparr>"
  let ?b1 = "InitBudget ?K ?T ?b0"
  let ?nil = "[] :: (nat \<times> nat \<times> Entry) list"
  from tr have P: "page_inv P" and nc: "0 \<le> nc" "nc < int size_range"
    by (simp_all add: transposable_def)
  have K: "nat (nc mod int size_range) = ?K" using nc by simp
  have rng: "\<forall>x\<in>set ?ps. fst x < ?K \<and> fst (snd x) < ?T"
    using pushes_in_range [OF tr] by blast
  have rows: "\<forall>i\<in>set [0..<Size P]. i < Size P" by simp
  have b1: "thread_rptr ?b1 = counters ?T ?K (\<lambda>t g. cnt ([] :: (nat \<times> nat \<times> Entry) list) t g)"
    by (simp add: InitBudget_def counters_def cnt_def map_replicate_const)
  have pass1: "for_each (for_each_entry P
         (\<lambda>i entry. AddBudget (unat (index entry)) (omp_get_thread_num rt i))) [0..<Size P] ?b1
     = Inr (?b1\<lparr>thread_rptr := counters ?T ?K (\<lambda>t g. cnt ?ps t g)\<rparr>)"
    unfolding for_each_rows [OF P rows]
    using count_pass [OF rng b1]
    by (simp add: pushes_def entries_of_def for_each_map)
  let ?b2 = "?b1\<lparr>thread_rptr := counters ?T ?K (\<lambda>t g. cnt ?ps t g)\<rparr>"
  have b2: "thread_rptr ?b2 = counters ?T ?K (\<lambda>t g. cnt ?ps t g)" "num_groups ?b2 = ?K"
    by (simp_all add: InitBudget_def)
  let ?b3 = "?b2\<lparr>rptr := map (gstart ?ps ?T) [0..<?K + 1],
       group_data := replicate (gstart ?ps ?T ?K) Entry_init,
       thread_rptr := counters ?T ?K (\<lambda>t g. tstart ?ps ?T t g)\<rparr>"
  have init: "InitStorage ?b2 = ?b3" by (rule InitStorage_counters [OF b2])
  have b3: "thread_rptr ?b3 = counters ?T ?K (\<lambda>t g. tstart ?ps ?T t g + cnt ?nil t g)"
    "length (group_data ?b3) = gstart ?ps ?T ?K"
    by (simp_all add: cnt_def)
  have "\<exists>D'. for_each (\<lambda>x. Push_group (fst x) (snd (snd x)) (fst (snd x))) ?ps ?b3 =
        Inr (?b3\<lparr>group_data := D',
               thread_rptr := counters ?T ?K (\<lambda>t g. tstart ?ps ?T t g + cnt ?ps t g)\<rparr>)
      \<and> length D' = gstart ?ps ?T ?K
      \<and> (\<forall>g t j. t < ?T \<and> cnt ?nil t g \<le> j \<and> j < cnt ?ps t g \<longrightarrow>
            D' ! (tstart ?ps ?T t g + j) = vals ?ps t g ! j)
      \<and> (\<forall>p. (\<forall>g t. \<not> in_range ?ps ?nil ?T p g t) \<longrightarrow> D' ! p = group_data ?b3 ! p)"
    by (rule fill_pass [where ps = ?ps and dn = ?nil and rest = ?ps and b = ?b3 and T = ?T and K = ?K,
        OF append_Nil [symmetric] rng b3])
  then obtain D where fill: "for_each (\<lambda>x. Push_group (fst x) (snd (snd x)) (fst (snd x))) ?ps ?b3 =
        Inr (?b3\<lparr>group_data := D,
               thread_rptr := counters ?T ?K (\<lambda>t g. tstart ?ps ?T t g + cnt ?ps t g)\<rparr>)"
    and len: "length D = gstart ?ps ?T ?K"
    and A: "\<forall>g t j. t < ?T \<and> cnt ?nil t g \<le> j \<and> j < cnt ?ps t g \<longrightarrow>
            D ! (tstart ?ps ?T t g + j) = vals ?ps t g ! j"
    by (elim exE conjE) 
  have pass2: "for_each (for_each_entry P
         (\<lambda>i entry. Push_group (unat (index entry))
            \<lparr>index = of_nat (u64 (base_rowid P + i)), fvalue = fvalue entry\<rparr>
            (omp_get_thread_num rt i))) [0..<Size P] ?b3
     = Inr (?b3\<lparr>group_data := D,
               thread_rptr := counters ?T ?K (\<lambda>t g. tstart ?ps ?T t g + cnt ?ps t g)\<rparr>)"
    unfolding for_each_rows [OF P rows]
    using fill by (simp add: pushes_def entries_of_def for_each_map)
  have "GetTranspose rt P nc =
        Inr (SparsePage_init\<lparr>offset := map (gstart ?ps ?T) [0..<?K + 1], data := D\<rparr>)"
    unfolding GetTranspose_def Let_def K pass1 sum.case init pass2 by simp
  then show ?thesis using len A by (intro exI [of _ D]) (simp add: cnt_def)
qed

lemma nth_map_upt0: "i < n \<Longrightarrow> map f [0..<n] ! i = f i"
  by (simp del: upt_Suc)

lemma page_inv_transpose:
  assumes "length D = gstart ps T K"
  shows "page_inv (SparsePage_init\<lparr>offset := map (gstart ps T) [0..<K + 1], data := D\<rparr>)"
proof -
  have s: "sorted (map (gstart ps T) [0..<K + 1])"
    unfolding sorted_iff_nth_mono
  proof (intro allI impI)
    fix i j assume ij: "i \<le> j" "j < length (map (gstart ps T) [0..<K + 1])"
    then have "i < K + 1" "j < K + 1" by simp_all
    then show "map (gstart ps T) [0..<K + 1] ! i \<le> map (gstart ps T) [0..<K + 1] ! j"
      using gstart_mono [OF ij(1), of ps T] by (simp only: nth_map_upt0)
  qed
  have l: "last (map (gstart ps T) [0..<K + 1]) = gstart ps T K" by simp
  have z: "map (gstart ps T) [0..<K + 1] ! 0 = 0"
    by (simp add: nth_map_upt0 del: upt_Suc)
  show ?thesis
    unfolding page_inv_def using s l z assms by (simp del: upt_Suc)
qed

lemma partial_sum_le:
  "t < T \<Longrightarrow> sum_list (map f [0..<t]) + f t \<le> sum_list (map (f :: nat \<Rightarrow> nat) [0..<T])"
proof (induction T)
  case 0
  then show ?case by simp
next
  case (Suc T)
  then show ?case by (cases "t = T") auto
qed

lemma concat_nth_eqI:
  assumes "length ys = sum_list (map (\<lambda>t. length (xs t)) [0..<T])"
    and "\<And>t j. t < T \<Longrightarrow> j < length (xs t) \<Longrightarrow>
           ys ! (sum_list (map (\<lambda>t'. length (xs t')) [0..<t]) + j) = xs t ! j"
  shows "ys = concat (map xs [0..<T])"
  using assms
proof (induction T arbitrary: ys)
  case 0
  then show ?case by simp
next
  case (Suc T)
  let ?S = "sum_list (map (\<lambda>t. length (xs t)) [0..<T])"
  have len: "length ys = ?S + length (xs T)" using Suc.prems(1) by simp
  have "take ?S ys = concat (map xs [0..<T])"
  proof (rule Suc.IH)
    show "length (take ?S ys) = ?S" using len by simp
  next
    fix t j assume t: "t < T" and j: "j < length (xs t)"
    have "sum_list (map (\<lambda>t'. length (xs t')) [0..<t]) + length (xs t) \<le> ?S"
      using t by (rule partial_sum_le)
    then have "sum_list (map (\<lambda>t'. length (xs t')) [0..<t]) + j < ?S" using j by simp
    then show "take ?S ys ! (sum_list (map (\<lambda>t'. length (xs t')) [0..<t]) + j) = xs t ! j"
      using Suc.prems(2) [of t j] t j by simp
  qed
  moreover have "drop ?S ys = xs T"
  proof (rule nth_equalityI)
    show "length (drop ?S ys) = length (xs T)" using len by simp
  next
    fix j assume "j < length (drop ?S ys)"
    then have j: "j < length (xs T)" using len by simp
    then show "drop ?S ys ! j = xs T ! j" using Suc.prems(2) [of T j] len by simp
  qed
  ultimately have "ys = concat (map xs [0..<T]) @ xs T"
    by (metis append_take_drop_id)
  then show ?case by simp
qed

lemma transposed_column:
  assumes len: "length D = gstart ps T K" and g: "g < K"
    and A: "\<forall>g t j. t < T \<and> j < cnt ps t g \<longrightarrow> D ! (tstart ps T t g + j) = vals ps t g ! j"
  shows "column (map (gstart ps T) [0..<K + 1]) D g = concat (map (\<lambda>t. vals ps t g) [0..<T])"
proof -
  let ?col = "take (tsum ps T g) (drop (gstart ps T g) D)"
  have off: "map (gstart ps T) [0..<K + 1] ! g = gstart ps T g"
    "map (gstart ps T) [0..<K + 1] ! (g + 1) = gstart ps T (Suc g)"
    using g by (simp_all add: nth_map_upt0 del: upt_Suc)
  have col: "column (map (gstart ps T) [0..<K + 1]) D g = ?col"
    unfolding column_def off by (simp add: gstart_Suc)
  have room: "gstart ps T g + tsum ps T g \<le> length D"
    using gstart_mono [of "Suc g" K ps T] g len by (simp add: gstart_Suc)
  have sums: "sum_list (map (\<lambda>t. length (vals ps t g)) [0..<t]) = tsum ps t g" for t
    by (simp add: tsum_def length_vals)
  have "?col = concat (map (\<lambda>t. vals ps t g) [0..<T])"
  proof (rule concat_nth_eqI)
    show "length ?col = sum_list (map (\<lambda>t. length (vals ps t g)) [0..<T])"
      using room by (simp add: sums)
  next
    fix t j assume t: "t < T" and j: "j < length (vals ps t g)"
    then have j': "j < cnt ps t g" by (simp add: length_vals)
    have "tsum ps t g + cnt ps t g \<le> tsum ps T g"
      using tsum_mono [of "Suc t" T ps g] t by (simp add: tsum_Suc)
    then have inside: "tsum ps t g + j < tsum ps T g" using j' by simp
    then have "?col ! (tsum ps t g + j) = D ! (gstart ps T g + (tsum ps t g + j))"
      using room by simp
    also have "\<dots> = vals ps t g ! j" using A t j' by (simp add: tstart_def add.assoc)
    finally show "?col ! (sum_list (map (\<lambda>t'. length (vals ps t' g)) [0..<t]) + j) = vals ps t g ! j"
      by (simp add: sums)
  qed
  then show ?thesis using col by simp
qed

lemma image_mset_sum_list: "image_mset f (sum_list ms) = sum_list (map (image_mset f) ms)"
  by (induction ms) simp_all

lemma sum_list_single_mset:
  assumes "k < K"
  shows "sum_list (map (\<lambda>g. if k = g then {#x#} else {#}) [0..<K]) = {#x#}"
proof -
  have "sum_list (map (\<lambda>g. if k = g then {#x#} else {#}) [0..<K])
      = sum (\<lambda>g. if k = g then {#x#} else {#}) (set [0..<K])"
    by (rule interv_sum_list_conv_sum_set_nat)
  also have "\<dots> = {#x#}" using assms by (simp add: sum.delta')
  finally show ?thesis .
qed

lemma sum_list_filter_partition:
  assumes "\<forall>x\<in>set xs. f x < K"
  shows "sum_list (map (\<lambda>g. mset (filter (\<lambda>x. f x = g) xs)) [0..<K]) = mset xs"
  using assms
proof (induction xs)
  case Nil
  then show ?case by (induction K) simp_all
next
  case (Cons x xs)
  have "sum_list (map (\<lambda>g. mset (filter (\<lambda>y. f y = g) (x # xs))) [0..<K])
      = sum_list (map (\<lambda>g. (if f x = g then {#x#} else {#}) + mset (filter (\<lambda>y. f y = g) xs)) [0..<K])"
    by (intro arg_cong [where f = sum_list] map_cong) simp_all
  also have "\<dots> = sum_list (map (\<lambda>g. if f x = g then {#x#} else {#}) [0..<K])
      + sum_list (map (\<lambda>g. mset (filter (\<lambda>y. f y = g) xs)) [0..<K])"
    by (rule sum_list_addf)
  also have "\<dots> = {#x#} + mset xs"
    using Cons sum_list_single_mset [of "f x" K x] by simp
  finally show ?case by simp
qed

lemma mset_vals_threads:
  assumes "\<forall>x\<in>set ps. fst (snd x) < T"
  shows "mset (concat (map (\<lambda>t. vals ps t g) [0..<T]))
     = image_mset (\<lambda>x. snd (snd x)) (mset (filter (\<lambda>x. fst x = g) ps))"
proof -
  let ?ps = "filter (\<lambda>x. fst x = g) ps"
  have v: "mset (vals ps t g) = image_mset (\<lambda>x. snd (snd x)) (mset (filter (\<lambda>x. fst (snd x) = t) ?ps))" for t
    by (simp add: vals_def conj_commute)
  have "mset (concat (map (\<lambda>t. vals ps t g) [0..<T])) = sum_list (map (\<lambda>t. mset (vals ps t g)) [0..<T])"
    by (simp add: mset_concat comp_def)
  also have "\<dots> = sum_list (map (image_mset (\<lambda>x. snd (snd x)))
       (map (\<lambda>t. mset (filter (\<lambda>x. fst (snd x) = t) ?ps)) [0..<T]))"
    by (simp add: v comp_def)
  also have "\<dots> = image_mset (\<lambda>x. snd (snd x))
       (sum_list (map (\<lambda>t. mset (filter (\<lambda>x. fst (snd x) = t) ?ps)) [0..<T]))"
    by (rule image_mset_sum_list [symmetric])
  also have "sum_list (map (\<lambda>t. mset (filter (\<lambda>x. fst (snd x) = t) ?ps)) [0..<T]) = mset ?ps"
    using assms by (intro sum_list_filter_partition) simp
  finally show ?thesis .
qed

lemma row_index_roundtrip:
  assumes "n < 2 ^ 32"
  shows "unat (of_nat (u64 n) :: 32 word) = n"
proof -
  have "(2::nat) ^ 32 \<le> size_range" by (simp add: size_range_def)
  then have "n < size_range" using assms by (rule less_le_trans [rotated])
  then have "u64 n = n" by (rule u64_id)
  moreover have "unat (of_nat n :: 32 word) = n" using assms by (simp add: unat_of_nat)
  ultimately show ?thesis by simp
qed

lemma row_triples_valid:
  assumes "page_inv P" and "i < Size P"
  shows "row_triples P i = image_mset (\<lambda>x. (base_rowid P + fst x, unat (index (snd x)), fvalue (snd x)))
     (mset (map (Pair i) (column (offset P) (data P) i)))"
  using Inst_valid [OF assms] by (simp add: row_triples_def multiset.map_comp comp_def)

lemma triples_entries:
  assumes "page_inv P"
  shows "triples P = image_mset (\<lambda>x. (base_rowid P + fst x, unat (index (snd x)), fvalue (snd x)))
     (mset (entries_of P))"
proof -
  let ?G = "\<lambda>x. (base_rowid P + fst x, unat (index (snd x)), fvalue (snd x))"
  have "map (row_triples P) [0..<Size P]
      = map (image_mset ?G) (map (\<lambda>i. mset (map (Pair i) (column (offset P) (data P) i))) [0..<Size P])"
    using row_triples_valid [OF assms] by (simp add: comp_def)
  then have "triples P = image_mset ?G
       (sum_list (map (\<lambda>i. mset (map (Pair i) (column (offset P) (data P) i))) [0..<Size P]))"
    unfolding triples_def by (simp only: image_mset_sum_list)
  also have "sum_list (map (\<lambda>i. mset (map (Pair i) (column (offset P) (data P) i))) [0..<Size P])
      = mset (entries_of P)"
    by (simp add: entries_of_def mset_concat comp_def)
  finally show ?thesis .
qed

lemma GetTranspose_spec:
  assumes tr: "transposable rt P nc" and fit: "base_rowid P + Size P \<le> 2 ^ 32"
  shows "\<exists>Q. GetTranspose rt P nc = Inr Q \<and> page_inv Q \<and> Size Q = nat nc \<and> base_rowid Q = 0
      \<and> triples Q = image_mset swap_triple (triples P)
      \<and> (\<forall>g<Size Q. \<forall>e\<in>set (column (offset Q) (data Q) g). unat (index e) < base_rowid P + Size P)"
proof -
  let ?T = "omp_get_max_threads rt" and ?K = "nat nc" and ?ps = "pushes rt P"
  from tr have P: "page_inv P" by (simp add: transposable_def)
  from GetTranspose_run [OF tr] obtain D where
    run: "GetTranspose rt P nc =
        Inr (SparsePage_init\<lparr>offset := map (gstart ?ps ?T) [0..<?K + 1], data := D\<rparr>)"
    and len: "length D = gstart ?ps ?T ?K"
    and A: "\<forall>g t j. t < ?T \<and> j < cnt ?ps t g \<longrightarrow> D ! (tstart ?ps ?T t g + j) = vals ?ps t g ! j"
    by blast
  let ?Q = "SparsePage_init\<lparr>offset := map (gstart ?ps ?T) [0..<?K + 1], data := D\<rparr>"
  have Q: "page_inv ?Q" using len by (rule page_inv_transpose)
  have size: "Size ?Q = ?K" by (simp add: Size_def)
  have base: "base_rowid ?Q = 0" by (simp add: SparsePage_init_def)
  have rng: "\<forall>x\<in>set ?ps. fst x < ?K \<and> fst (snd x) < ?T"
    using pushes_in_range [OF tr] by blast
  have col: "column (offset ?Q) (data ?Q) g = concat (map (\<lambda>t. vals ?ps t g) [0..<?T])"
    if "g < ?K" for g
    using transposed_column [OF len that A] by simp
  have mcol: "mset (column (offset ?Q) (data ?Q) g)
      = image_mset (\<lambda>x. snd (snd x)) (mset (filter (\<lambda>x. fst x = g) ?ps))" if "g < ?K" for g
    unfolding col [OF that] using rng by (intro mset_vals_threads) simp
  let ?F = "\<lambda>x :: nat \<times> nat \<times> Entry. (fst x, unat (index (snd (snd x))), fvalue (snd (snd x)))"
  have row: "row_triples ?Q g = image_mset ?F (mset (filter (\<lambda>x. fst x = g) ?ps))"
    if "g < ?K" for g
  proof -
    have "g < Size ?Q" using that size by simp
    from Inst_valid [OF Q this]
    have "row_triples ?Q g = image_mset (\<lambda>e. (g, unat (index e), fvalue e))
        (mset (column (offset ?Q) (data ?Q) g))"
      by (simp add: row_triples_def SparsePage_init_def del: upt_Suc)
    also have "\<dots> = image_mset (\<lambda>x. (g, unat (index (snd (snd x))), fvalue (snd (snd x))))
        (mset (filter (\<lambda>x. fst x = g) ?ps))"
      unfolding mcol [OF that] by (simp add: multiset.map_comp comp_def)
    also have "\<dots> = image_mset ?F (mset (filter (\<lambda>x. fst x = g) ?ps))"
      by (intro image_mset_cong) simp
    finally show ?thesis .
  qed
  have "map (row_triples ?Q) [0..<?K]
      = map (image_mset ?F) (map (\<lambda>g. mset (filter (\<lambda>x. fst x = g) ?ps)) [0..<?K])"
    using row by (simp add: comp_def)
  then have "triples ?Q = image_mset ?F
       (sum_list (map (\<lambda>g. mset (filter (\<lambda>x. fst x = g) ?ps)) [0..<?K]))"
    unfolding triples_def size by (simp only: image_mset_sum_list)
  also have "sum_list (map (\<lambda>g. mset (filter (\<lambda>x. fst x = g) ?ps)) [0..<?K]) = mset ?ps"
    using rng by (intro sum_list_filter_partition) simp
  finally have tq: "triples ?Q = image_mset ?F (mset ?ps)" .
  have inrows: "fst x < Size P" if "x \<in> set (entries_of P)" for x
    using that by (auto simp: entries_of_def)
  have "image_mset ?F (mset ?ps) = image_mset (\<lambda>x. ?F (unat (index (snd x)), omp_get_thread_num rt (fst x),
       \<lparr>index = of_nat (u64 (base_rowid P + fst x)), fvalue = fvalue (snd x)\<rparr>)) (mset (entries_of P))"
    by (simp add: pushes_def multiset.map_comp comp_def)
  also have "\<dots> = image_mset (\<lambda>x. swap_triple (base_rowid P + fst x, unat (index (snd x)), fvalue (snd x)))
       (mset (entries_of P))"
  proof (intro image_mset_cong)
    fix x assume "x \<in># mset (entries_of P)"
    then have "fst x < Size P" using inrows by simp
    then have "base_rowid P + fst x < 2 ^ 32" using fit by simp
    then have "unat (of_nat (u64 (base_rowid P + fst x)) :: 32 word) = base_rowid P + fst x"
      by (rule row_index_roundtrip)
    then show "?F (unat (index (snd x)), omp_get_thread_num rt (fst x),
       \<lparr>index = of_nat (u64 (base_rowid P + fst x)), fvalue = fvalue (snd x)\<rparr>)
      = swap_triple (base_rowid P + fst x, unat (index (snd x)), fvalue (snd x))"
      by (simp add: swap_triple_def)
  qed
  also have "\<dots> = image_mset swap_triple (triples P)"
    unfolding triples_entries [OF P] by (simp add: multiset.map_comp comp_def)
  finally have sw: "image_mset ?F (mset ?ps) = image_mset swap_triple (triples P)" .
  have idx: "unat (index e) < base_rowid P + Size P"
    if "g < Size ?Q" "e \<in> set (column (offset ?Q) (data ?Q) g)" for g e
  proof -
    have "g < ?K" using that(1) size by simp
    from mcol [OF this] that(2) have "e \<in># image_mset (\<lambda>x. snd (snd x)) (mset (filter (\<lambda>x. fst x = g) ?ps))"
      by (metis set_mset_mset)
    then obtain x where "x \<in> set ?ps" "e = snd (snd x)" by auto
    then obtain y where y: "y \<in> set (entries_of P)"
      "e = \<lparr>index = of_nat (u64 (base_rowid P + fst y)), fvalue = fvalue (snd y)\<rparr>"
      by (auto simp: pushes_def)
    have lt: "fst y < Size P" using inrows y(1) by simp
    then have "base_rowid P + fst y < 2 ^ 32" using fit by simp
    then have "unat (of_nat (u64 (base_rowid P + fst y)) :: 32 word) = base_rowid P + fst y"
      by (rule row_index_roundtrip)
    then show ?thesis using y(2) lt by simp
  qed
  show ?thesis
    using run Q size base tq sw idx by (intro exI [of _ ?Q]) simp
qed

lemma swap_triple_twice: "image_mset swap_triple (image_mset swap_triple M) = M"
proof -
  have "swap_triple (swap_triple x) = x" for x :: "nat \<times> nat \<times> 'a"
    by (simp add: swap_triple_def)
  then show ?thesis by (simp add: multiset.map_comp comp_def)
qed

lemma Transpose_twice:
  assumes tr: "transposable rt P nCols" and c: "nCols < 2 ^ 31"
    and r: "int (base_rowid P + Size P) \<le> nRows" "nRows < 2 ^ 31"
    and th: "\<forall>g<nat nCols. omp_get_thread_num rt' g < omp_get_max_threads rt'"
  shows "\<exists>Q R. GetTranspose rt P nCols = Inr Q \<and> GetTranspose rt' Q nRows = Inr R
      \<and> page_inv Q \<and> page_inv R
      \<and> triples Q = image_mset swap_triple (triples P) \<and> triples R = triples P"
proof -
  have "int (base_rowid P + Size P) < 2 ^ 31" using r by simp
  then have "base_rowid P + Size P < 2 ^ 31" by (simp only: of_nat_less_numeral_power_cancel_iff)
  then have fit1: "base_rowid P + Size P \<le> 2 ^ 32" by simp
  from GetTranspose_spec [OF tr fit1] obtain Q where
    Q: "GetTranspose rt P nCols = Inr Q" "page_inv Q" "Size Q = nat nCols" "base_rowid Q = 0"
      "triples Q = image_mset swap_triple (triples P)"
    and idx: "\<forall>g<Size Q. \<forall>e\<in>set (column (offset Q) (data Q) g). unat (index e) < base_rowid P + Size P"
    by blast
  have r0: "0 \<le> nRows" using r(1) by simp
  have "(2::int) ^ 31 \<le> int size_range" by (simp add: size_range_def)
  then have r1: "nRows < int size_range" using r(2) by simp
  have cols: "\<forall>g<Size Q. \<forall>e\<in>set (column (offset Q) (data Q) g). int (unat (index e)) < nRows"
  proof (intro allI impI ballI)
    fix g e assume "g < Size Q" "e \<in> set (column (offset Q) (data Q) g)"
    then have "unat (index e) < base_rowid P + Size P" using idx by blast
    then have "int (unat (index e)) < int (base_rowid P + Size P)" by (simp only: of_nat_less_iff)
    then show "int (unat (index e)) < nRows" using r(1) by (rule less_le_trans)
  qed
  have tr2: "transposable rt' Q nRows"
    unfolding transposable_def using Q(2,3) r0 r1 th cols by simp
  have "nat nCols < 2 ^ 31" using c by simp
  then have fit2: "base_rowid Q + Size Q \<le> 2 ^ 32" using Q(3,4) by simp
  from GetTranspose_spec [OF tr2 fit2] obtain R where
    R: "GetTranspose rt' Q nRows = Inr R" "page_inv R"
      "triples R = image_mset swap_triple (triples Q)"
    by blast
  have "triples R = triples P" unfolding R(3) Q(5) by (rule swap_triple_twice)
  then show ?thesis using Q R by blast
qed

text \<open>
  Claim C6. For every page \<open>P\<close> that satisfies the page invariant, every \<open>nCols\<close> above the
  column indices of \<open>P\<close> and every \<open>nRows\<close> above its row indices \<open>base_rowid + i\<close> (both
  values of the C type \<^verbatim>\<open>int\<close>), with every loop iteration run by one of the threads
  of the pool: \<open>GetTranspose(P, nCols)\<close> returns a page \<open>Q\<close> whose triples are those of \<open>P\<close>
  with row and column exchanged, the row recorded in an entry of \<open>Q\<close> being
  \<open>base_rowid + i\<close>, and \<open>GetTranspose(Q, nRows)\<close> returns a page with the same multiset of
  (row, column, value) triples as \<open>P\<close>.
\<close>

theorem Transpose_round_trip:
  "transposable rt P nCols \<and> nCols < 2 ^ 31
     \<and> int (base_rowid P + Size P) \<le> nRows \<and> nRows < 2 ^ 31
     \<and> (\<forall>g<nat nCols. omp_get_thread_num rt' g < omp_get_max_threads rt') \<longrightarrow>
   (\<exists>Q R. GetTranspose rt P nCols = Inr Q \<and> GetTranspose rt' Q nRows = Inr R
      \<and> triples Q = image_mset swap_triple (triples P) \<and> triples R = triples P)"
proof (intro impI)
  assume a: "transposable rt P nCols \<and> nCols < 2 ^ 31
     \<and> int (base_rowid P + Size P) \<le> nRows \<and> nRows < 2 ^ 31
     \<and> (\<forall>g<nat nCols. omp_get_thread_num rt' g < omp_get_max_threads rt')"
  then have "\<exists>Q R. GetTranspose rt P nCols = Inr Q \<and> GetTranspose rt' Q nRows = Inr R
      \<and> page_inv Q \<and> page_inv R
      \<and> triples Q = image_mset swap_triple (triples P) \<and> triples R = triples P"
    by (intro Transpose_twice) simp_all
  then show "\<exists>Q R. GetTranspose rt P nCols = Inr Q \<and> GetTranspose rt' Q nRows = Inr R
      \<and> triples Q = image_mset swap_triple (triples P) \<and> triples R = triples P"
    by blast
qed

lemma example_page_inv:
  "page_inv \<lparr>offset = [0, 2, 3], data = [\<lparr>index = 1, fvalue = 10\<rparr>, \<lparr>index = 2, fvalue = 11\<rparr>,
      \<lparr>index = 0, fvalue = 12\<rparr>], base_rowid = 0\<rparr>"
  by (simp add: page_inv_def)

lemma example_transposable:
  "transposable \<lparr>omp_get_max_threads = 2, omp_get_thread_num = (\<lambda>i. i mod 2)\<rparr>
     \<lparr>offset = [0, 2, 3], data = [\<lparr>index = 1, fvalue = 10\<rparr>, \<lparr>index = 2, fvalue = 11\<rparr>,
      \<lparr>index = 0, fvalue = 12\<rparr>], base_rowid = 0\<rparr> 3"
proof -
  have "(3::int) < int size_range" by (simp add: size_range_def)
  then show ?thesis
    unfolding transposable_def using example_page_inv
    by (auto simp: Size_def column_def less_Suc_eq)
qed

theorem Transpose_round_trip_witness:
  "transposable \<lparr>omp_get_max_threads = 2, omp_get_thread_num = (\<lambda>i. i mod 2)\<rparr>
     \<lparr>offset = [0, 2, 3], data = [\<lparr>index = 1, fvalue = 10\<rparr>, \<lparr>index = 2, fvalue = 11\<rparr>,
      \<lparr>index = 0, fvalue = 12\<rparr>], base_rowid = 0\<rparr> 3
   \<and> (3::int) < 2 ^ 31 \<and> (2::int) < 2 ^ 31
   \<and> int (base_rowid \<lparr>offset = [0, 2, 3], data = [\<lparr>index = 1, fvalue = 10\<rparr>,
        \<lparr>index = 2, fvalue = 11\<rparr>, \<lparr>index = 0, fvalue = 12\<rparr>], base_rowid = 0\<rparr>
      + Size \<lparr>offset = [0, 2, 3], data = [\<lparr>index = 1, fvalue = 10\<rparr>,
        \<lparr>index = 2, fvalue = 11\<rparr>, \<lparr>index = 0, fvalue = 12\<rparr>], base_rowid = 0\<rparr>) \<le> 2
   \<and> (\<exists>Q R. GetTranspose \<lparr>omp_get_max_threads = 2, omp_get_thread_num = (\<lambda>i. i mod 2)\<rparr>
       \<lparr>offset = [0, 2, 3], data = [\<lparr>index = 1, fvalue = 10\<rparr>, \<lparr>index = 2, fvalue = 11\<rparr>,
        \<lparr>index = 0, fvalue = 12\<rparr>], base_rowid = 0\<rparr> 3 = Inr Q
      \<and> GetTranspose \<lparr>omp_get_max_threads = 2, omp_get_thread_num = (\<lambda>i. i mod 2)\<rparr> Q 2 = Inr R
      \<and> triples R = triples \<lparr>offset = [0, 2, 3], data = [\<lparr>index = 1, fvalue = 10\<rparr>,
        \<lparr>index = 2, fvalue = 11\<rparr>, \<lparr>index = 0, fvalue = 12\<rparr>], base_rowid = 0\<rparr>)"
proof -
  let ?rt = "\<lparr>omp_get_max_threads = 2, omp_get_thread_num = (\<lambda>i. i mod 2)\<rparr>"
  let ?P = "\<lparr>offset = [0, 2, 3], data = [\<lparr>index = 1, fvalue = 10\<rparr>, \<lparr>index = 2, fvalue = 11\<rparr>,
      \<lparr>index = 0, fvalue = 12\<rparr>], base_rowid = 0\<rparr>"
  have h: "transposable ?rt ?P 3 \<and> (3::int) < 2 ^ 31
     \<and> int (base_rowid ?P + Size ?P) \<le> 2 \<and> (2::int) < 2 ^ 31
     \<and> (\<forall>g<nat 3. omp_get_thread_num ?rt g < omp_get_max_threads ?rt)"
    using example_transposable by (simp add: Size_def)
  from Transpose_round_trip [of ?rt ?P 3 2 ?rt, rule_format, OF h]
  have "\<exists>Q R. GetTranspose ?rt ?P 3 = Inr Q \<and> GetTranspose ?rt Q 2 = Inr R
      \<and> triples R = triples ?P" by blast
  then show ?thesis using h by simp
qed

section \<open>The page invariant\<close>

lemma PushCSC_preserves:
  assumes P: "page_inv P" and Q: "page_inv Q"
    and fit: "length (data P) + length (data Q) < size_range"
    and ok: "data Q = [] \<or> data P = [] \<or> length (offset P) = length (offset Q)"
  shows "\<exists>R. PushCSC P Q = Inr R \<and> page_inv R"
proof (cases "data Q = []")
  case True
  then show ?thesis using P by (simp add: PushCSC_def)
next
  case neQ: False
  show ?thesis
  proof (cases "data P = []")
    case True
    have "page_inv (P\<lparr>data := data Q, offset := offset Q\<rparr>)"
      using Q by (simp add: page_inv_def)
    then show ?thesis using True neQ by (simp add: PushCSC_def)
  next
    case neP: False
    then have len: "length (offset P) = length (offset Q)" using ok neQ by simp
    have "PushCSC P Q = Inr (PushCSC_result P Q)"
      using P Q neP neQ len fit by (rule PushCSC_merge)
    moreover have "page_inv (PushCSC_result P Q)" using P Q len by (rule page_inv_PushCSC_result)
    ultimately show ?thesis by blast
  qed
qed

lemma GetTranspose_preserves:
  assumes "transposable rt P nc"
  shows "\<exists>Q. GetTranspose rt P nc = Inr Q \<and> page_inv Q"
proof -
  from GetTranspose_run [OF assms] obtain D where
    "GetTranspose rt P nc = Inr (SparsePage_init\<lparr>offset :=
        map (gstart (pushes rt P) (omp_get_max_threads rt)) [0..<nat nc + 1], data := D\<rparr>)"
    "length D = gstart (pushes rt P) (omp_get_max_threads rt) (nat nc)"
    by blast
  then show ?thesis using page_inv_transpose by blast
qed

text \<open>
  Claim C7. Every operation of \<^verbatim>\<open>SparsePage\<close> preserves the page invariant (\<open>offset[0] = 0\<close>,
  \<open>offset\<close> nondecreasing, \<open>offset.back() = data.size()\<close>): \<open>Push\<close> of a page that satisfies
  it, \<open>Push\<close> of a well-formed row block, \<open>PushCSC\<close> of a page that satisfies it, in the
  cases where \<open>PushCSC\<close> does not report a column-count mismatch, and \<open>GetTranspose\<close>, whose
  result satisfies it. The operations are applied to a page that satisfies the invariant,
  the sizes involved are \<^verbatim>\<open>size_t\<close> values, and each operation returns a page.
\<close>

theorem page_invariant_preserved:
  "(page_inv P1 \<and> page_inv Q1 \<and> length (data P1) + length (data Q1) < size_range
      \<and> length (offset P1) + length (offset Q1) < size_range \<longrightarrow>
      (\<exists>R. Push P1 Q1 = Inr R \<and> page_inv R))
   \<and> (page_inv P2 \<and> block_wf b \<and> last (block_offset b) < size_range
      \<and> length (data P2) + (last (block_offset b) - block_offset b ! 0) < size_range \<longrightarrow>
      (\<exists>R. Push_block P2 b = Inr R \<and> page_inv R))
   \<and> (page_inv P3 \<and> page_inv Q3 \<and> length (data P3) + length (data Q3) < size_range
      \<and> (data Q3 = [] \<or> data P3 = [] \<or> length (offset P3) = length (offset Q3)) \<longrightarrow>
      (\<exists>R. PushCSC P3 Q3 = Inr R \<and> page_inv R))
   \<and> (transposable rt P4 num_columns \<longrightarrow>
      (\<exists>R. GetTranspose rt P4 num_columns = Inr R \<and> page_inv R))"
proof (intro conjI impI)
  assume a: "page_inv P1 \<and> page_inv Q1 \<and> length (data P1) + length (data Q1) < size_range
      \<and> length (offset P1) + length (offset Q1) < size_range"
  then have "Push P1 Q1 = Inr (P1\<lparr>offset := offset P1 @ map (\<lambda>x. length (data P1) + x) (tl (offset Q1)),
      data := data P1 @ data Q1\<rparr>)"
    by (intro Push_valid) simp_all
  moreover have "page_inv (P1\<lparr>offset := offset P1 @ map (\<lambda>x. length (data P1) + x) (tl (offset Q1)),
      data := data P1 @ data Q1\<rparr>)"
    using a by (intro page_inv_Push_result) simp_all
  ultimately show "\<exists>R. Push P1 Q1 = Inr R \<and> page_inv R" by blast
next
  assume a: "page_inv P2 \<and> block_wf b \<and> last (block_offset b) < size_range
      \<and> length (data P2) + (last (block_offset b) - block_offset b ! 0) < size_range"
  then have "Push_block P2 b = Inr (Push_block_result P2 b)"
    by (intro Push_block_valid) simp_all
  moreover have "page_inv (Push_block_result P2 b)"
    using a by (intro page_inv_Push_block_result) simp_all
  ultimately show "\<exists>R. Push_block P2 b = Inr R \<and> page_inv R" by blast
next
  assume "page_inv P3 \<and> page_inv Q3 \<and> length (data P3) + length (data Q3) < size_range
      \<and> (data Q3 = [] \<or> data P3 = [] \<or> length (offset P3) = length (offset Q3))"
  then show "\<exists>R. PushCSC P3 Q3 = Inr R \<and> page_inv R"
    by (intro PushCSC_preserves) simp_all
next
  assume "transposable rt P4 num_columns"
  then show "\<exists>R. GetTranspose rt P4 num_columns = Inr R \<and> page_inv R"
    by (rule GetTranspose_preserves)
qed

theorem page_invariant_preserved_witness:
  "page_inv \<lparr>offset = [0, 2, 3], data = [\<lparr>index = 1, fvalue = 10\<rparr>, \<lparr>index = 2, fvalue = 11\<rparr>,
      \<lparr>index = 0, fvalue = 12\<rparr>], base_rowid = 0\<rparr>
   \<and> block_wf \<lparr>block_size = 2, block_offset = [1, 2, 4], block_index = Some [9, 8, 7, 6],
        block_value = None\<rparr>
   \<and> transposable \<lparr>omp_get_max_threads = 2, omp_get_thread_num = (\<lambda>i. i mod 2)\<rparr>
     \<lparr>offset = [0, 2, 3], data = [\<lparr>index = 1, fvalue = 10\<rparr>, \<lparr>index = 2, fvalue = 11\<rparr>,
      \<lparr>index = 0, fvalue = 12\<rparr>], base_rowid = 0\<rparr> 3
   \<and> (6::nat) < size_range
   \<and> (\<exists>R. Push \<lparr>offset = [0, 2, 3], data = [\<lparr>index = 1, fvalue = 10\<rparr>,
          \<lparr>index = 2, fvalue = 11\<rparr>, \<lparr>index = 0, fvalue = 12\<rparr>], base_rowid = 0\<rparr>
        \<lparr>offset = [0, 2, 3], data = [\<lparr>index = 1, fvalue = 10\<rparr>,
          \<lparr>index = 2, fvalue = 11\<rparr>, \<lparr>index = 0, fvalue = 12\<rparr>], base_rowid = 0\<rparr> = Inr R
        \<and> page_inv R)
   \<and> (\<exists>R. Push_block \<lparr>offset = [0, 2, 3], data = [\<lparr>index = 1, fvalue = 10\<rparr>,
          \<lparr>index = 2, fvalue = 11\<rparr>, \<lparr>index = 0, fvalue = 12\<rparr>], base_rowid = 0\<rparr>
        \<lparr>block_size = 2, block_offset = [1, 2, 4], block_index = Some [9, 8, 7, 6],
          block_value = None\<rparr> = Inr R \<and> page_inv R)
   \<and> (\<exists>R. PushCSC \<lparr>offset = [0, 2, 3], data = [\<lparr>index = 1, fvalue = 10\<rparr>,
          \<lparr>index = 2, fvalue = 11\<rparr>, \<lparr>index = 0, fvalue = 12\<rparr>], base_rowid = 0\<rparr>
        \<lparr>offset = [0, 2, 3], data = [\<lparr>index = 1, fvalue = 10\<rparr>,
          \<lparr>index = 2, fvalue = 11\<rparr>, \<lparr>index = 0, fvalue = 12\<rparr>], base_rowid = 0\<rparr> = Inr R
        \<and> page_inv R)
   \<and> (\<exists>R. GetTranspose \<lparr>omp_get_max_threads = 2, omp_get_thread_num = (\<lambda>i. i mod 2)\<rparr>
        \<lparr>offset = [0, 2, 3], data = [\<lparr>index = 1, fvalue = 10\<rparr>,
          \<lparr>index = 2, fvalue = 11\<rparr>, \<lparr>index = 0, fvalue = 12\<rparr>], base_rowid = 0\<rparr> 3 = Inr R
        \<and> page_inv R)"
proof -
  let ?rt = "\<lparr>omp_get_max_threads = 2, omp_get_thread_num = (\<lambda>i. i mod 2)\<rparr>"
  let ?P = "\<lparr>offset = [0, 2, 3], data = [\<lparr>index = 1, fvalue = 10\<rparr>, \<lparr>index = 2, fvalue = 11\<rparr>,
      \<lparr>index = 0, fvalue = 12\<rparr>], base_rowid = 0\<rparr>"
  let ?b = "\<lparr>block_size = 2, block_offset = [1, 2, 4], block_index = Some [9, 8, 7, 6],
        block_value = None\<rparr>"
  have six: "(6::nat) < size_range" by (simp add: size_range_def)
  have wf: "block_wf ?b" by (simp add: block_wf_def)
  have h1: "page_inv ?P \<and> page_inv ?P \<and> length (data ?P) + length (data ?P) < size_range
      \<and> length (offset ?P) + length (offset ?P) < size_range"
    using example_page_inv six by simp
  have h2: "page_inv ?P \<and> block_wf ?b \<and> last (block_offset ?b) < size_range
      \<and> length (data ?P) + (last (block_offset ?b) - block_offset ?b ! 0) < size_range"
    using example_page_inv wf six by simp
  have h3: "page_inv ?P \<and> page_inv ?P \<and> length (data ?P) + length (data ?P) < size_range
      \<and> (data ?P = [] \<or> data ?P = [] \<or> length (offset ?P) = length (offset ?P))"
    using example_page_inv six by simp
  note inst = page_invariant_preserved [of ?P ?P ?P ?b ?P ?P ?rt ?P 3]
  have c1: "\<exists>R. Push ?P ?P = Inr R \<and> page_inv R"
    using inst [THEN conjunct1] h1 by blast
  have c2: "\<exists>R. Push_block ?P ?b = Inr R \<and> page_inv R"
    using inst [THEN conjunct2, THEN conjunct1] h2 by blast
  have c3: "\<exists>R. PushCSC ?P ?P = Inr R \<and> page_inv R"
    using inst [THEN conjunct2, THEN conjunct2, THEN conjunct1] h3 by blast
  have c4: "\<exists>R. GetTranspose ?rt ?P 3 = Inr R \<and> page_inv R"
    using inst [THEN conjunct2, THEN conjunct2, THEN conjunct2] example_transposable by blast
  show ?thesis using example_page_inv wf example_transposable six c1 c2 c3 c4 by blast
qed

end
